theory Spec2Isabelle
  imports Complex_Main "HOL-Library.Signed_Division" "HOL-Library.Log_Nat"
begin

unbundle bit_operations_syntax

section \<open>The route solver of \<^verbatim>\<open>solver.cpp\<close>\<close>

text \<open>
  The solver works on \<^verbatim>\<open>float\<close> minutes, the binary32 format of IEEE 754. Every finite
  float is a rational number, so times are values of type \<^typ>\<open>rat\<close>. A float sum or
  product is the exact sum or product rounded to the nearest float, ties to the even
  significand (\<open>float_add\<close> and \<open>float_mul\<close> below); comparisons of floats and the choice
  of the later of two floats are exact. The conversion \<^verbatim>\<open>(float)n\<close> of an \<^verbatim>\<open>int\<close> is exact
  up to \<open>2\<^sup>2\<^sup>4\<close> in magnitude, far above the minutes of a day, and is written \<open>of_int\<close>;
  the conversion \<^verbatim>\<open>(int)x\<close> is the truncation \<open>float_to_int\<close>, which is defined for the
  times below \<open>2\<^sup>3\<^sup>1\<close> minutes. Travel times are finite floats: a sum of a
  time of the day and a finite float is below \<open>2\<^sup>1\<^sup>2\<^sup>8\<close>, so no operation overflows to an
  infinity, and none yields a NaN.

  C \<^verbatim>\<open>int\<close> values that may be negative (slot starts, times, the \<^verbatim>\<open>-1\<close> results, parent
  codes, the running best) are of type \<^typ>\<open>int\<close>; sizes, loop counters, node indices, masks
  and array indices, which the source never makes negative, are of type \<^typ>\<open>nat\<close>.
  The fixed-size arrays of the input struct and the two vectors \<^verbatim>\<open>dp\<close> and \<^verbatim>\<open>parent\<close> are
  functions from the index; the source trusts its input and so reads them in range.
  With at most 17 checkpoints and the minutes of a day no \<^verbatim>\<open>int\<close> of the source overflows:
  the largest are the index \<open>mask * N + pos\<close>, below \<open>2\<^sup>1\<^sup>7 * 17\<close>, and the parent code
  \<open>(mask << 5) | pos\<close>, below \<open>2\<^sup>2\<^sup>2\<close>.
\<close>

subsection \<open>Constants and the input and result structs\<close>

definition MAX_CP :: nat where "MAX_CP = 17"
definition MAX_SLOTS :: nat where "MAX_SLOTS = 15"
definition ALL_NODES :: nat where "ALL_NODES = 19"
definition START_IDX :: nat where "START_IDX = 17"
definition FINISH_IDX :: nat where "FINISH_IDX = 18"
definition INF_TIME :: rat where "INF_TIME = 1000000000"

record SolverInput =
  n_checkpoints :: nat
  n_slots :: nat
  travel_time :: "nat \<Rightarrow> nat \<Rightarrow> rat"
  open_at :: "nat \<Rightarrow> nat \<Rightarrow> bool"
  finish_open :: "nat \<Rightarrow> bool"
  slot_starts :: "nat \<Rightarrow> int"
  speed :: rat
  dwell :: int
  naismith :: rat
  start_time :: int
  end_time :: int

text \<open>
  \<^verbatim>\<open>route\<close> holds the entries of the result's array that \<^verbatim>\<open>solve\<close> has written, in order.
\<close>

record SolverResult =
  count :: int
  route :: "nat list"
  route_length :: nat
  finish_time :: rat

subsection \<open>Small helpers\<close>

text \<open>The conversion \<^verbatim>\<open>(int)x\<close> of a float: the fraction is dropped, towards zero.\<close>

definition float_to_int :: "rat \<Rightarrow> int" where
  "float_to_int x = (if x < 0 then \<lceil>x\<rceil> else \<lfloor>x\<rfloor>)"

text \<open>
  Rounding to binary32. \<open>rne\<close> rounds a rational to the nearest integer, a tie to the
  even one. \<open>binade x\<close>, for \<open>x > 0\<close>, is the exponent \<open>e\<close> with \<open>2\<^sup>e \<le> x < 2\<^sup>e\<^sup>+\<^sup>1\<close>, found from
  the bit lengths of numerator and denominator. A float has a significand of 24 bits, so
  the unit in the last place of the floats between \<open>2\<^sup>e\<close> and \<open>2\<^sup>e\<^sup>+\<^sup>1\<close> is \<open>2\<^sup>e\<^sup>-\<^sup>2\<^sup>3\<close>, and
  \<open>2\<^sup>-\<^sup>1\<^sup>4\<^sup>9\<close> for the subnormal floats below \<open>2\<^sup>-\<^sup>1\<^sup>2\<^sup>6\<close>. \<open>round_float x\<close> is the multiple of that
  unit nearest to \<open>x\<close>.
\<close>

definition rne :: "rat \<Rightarrow> int" where
  "rne x =
     (let f = \<lfloor>x\<rfloor>; r = x - of_int f
      in if r < 1 / 2 then f else if r > 1 / 2 then f + 1
         else if even f then f else f + 1)"

definition binade :: "rat \<Rightarrow> int" where
  "binade x =
     (let (p, q) = quotient_of x; e = bitlen p - bitlen q
      in if 2 powi e \<le> x then e else e - 1)"

definition ulp_exponent :: "rat \<Rightarrow> int" where
  "ulp_exponent x = max (binade \<bar>x\<bar> - 23) (- 149)"

definition round_float :: "rat \<Rightarrow> rat" where
  "round_float x =
     (if x = 0 then 0
      else
        let q = ulp_exponent x
        in of_int (rne (x / 2 powi q)) * 2 powi q)"

text \<open>The float operations \<^verbatim>\<open>a + b\<close> and \<^verbatim>\<open>a * b\<close>.\<close>

definition float_add :: "rat \<Rightarrow> rat \<Rightarrow> rat" where
  "float_add a b = round_float (a + b)"

definition float_mul :: "rat \<Rightarrow> rat \<Rightarrow> rat" where
  "float_mul a b = round_float (a * b)"

text \<open>\<^verbatim>\<open>popcount\<close>: \<^verbatim>\<open>while (x) { c += x & 1; x >>= 1; }\<close>.\<close>

function popcount_loop :: "nat \<Rightarrow> nat \<Rightarrow> nat" where
  "popcount_loop x c = (if x \<noteq> 0 then popcount_loop (drop_bit 1 x) (c + (x AND 1)) else c)"
  by pat_completeness auto
termination
  by (relation "measure (\<lambda>(x, c). x)") (auto simp: drop_bit_eq_div)

definition popcount :: "nat \<Rightarrow> nat" where
  "popcount x = popcount_loop x 0"

subsection \<open>Time-slot arithmetic\<close>

text \<open>The linear search \<^verbatim>\<open>for (s = 0; s < n_slots; s++) if (slot_starts[s] == slot_time) return s;\<close>
  with the final \<^verbatim>\<open>return -1\<close>.\<close>

function slot_search :: "SolverInput \<Rightarrow> int \<Rightarrow> nat \<Rightarrow> int" where
  "slot_search inp slot_time s =
     (if s < n_slots inp
      then (if slot_starts inp s = slot_time then int s
            else slot_search inp slot_time (Suc s))
      else - 1)"
  by pat_completeness auto
termination
  by (relation "measure (\<lambda>(inp, slot_time, s). n_slots inp - s)") auto

definition arrival_to_slot_index :: "rat \<Rightarrow> SolverInput \<Rightarrow> int" where
  "arrival_to_slot_index arrival_minutes inp =
     (if arrival_minutes < of_int (slot_starts inp 0) then - 1
      else
        let whole = float_to_int arrival_minutes;
            h = whole sdiv 60;
            m = whole smod 60;
            slot_time = h * 60 + (if m > 30 then 30 else 0)
        in if slot_time > slot_starts inp (n_slots inp - 1) then int (n_slots inp - 1)
           else slot_search inp slot_time 0)"

subsection \<open>Feasibility oracle\<close>

function open_search :: "SolverInput \<Rightarrow> nat \<Rightarrow> rat \<Rightarrow> nat \<Rightarrow> rat" where
  "open_search inp cp_idx arrival_minutes s =
     (if s < n_slots inp
      then (if open_at inp cp_idx s
            then (if arrival_minutes > of_int (slot_starts inp s)
                  then arrival_minutes else of_int (slot_starts inp s))
            else open_search inp cp_idx arrival_minutes (Suc s))
      else - 1)"
  by pat_completeness auto
termination
  by (relation "measure (\<lambda>(inp, cp_idx, arrival_minutes, s). n_slots inp - s)") auto

definition find_next_open_time :: "nat \<Rightarrow> rat \<Rightarrow> SolverInput \<Rightarrow> rat" where
  "find_next_open_time cp_idx arrival_minutes inp =
     (let slot = arrival_to_slot_index arrival_minutes inp;
          slot = (if slot < 0 then 0 else slot)
      in open_search inp cp_idx arrival_minutes (nat slot))"

function finish_search :: "SolverInput \<Rightarrow> rat \<Rightarrow> nat \<Rightarrow> bool" where
  "finish_search inp finish_arrival s =
     (if s < n_slots inp
      then (if finish_open inp s \<and>
               (if finish_arrival > of_int (slot_starts inp s)
                then finish_arrival else of_int (slot_starts inp s)) \<le> of_int (end_time inp)
            then True
            else finish_search inp finish_arrival (Suc s))
      else False)"
  by pat_completeness auto
termination
  by (relation "measure (\<lambda>(inp, finish_arrival, s). n_slots inp - s)") auto

definition can_reach_finish :: "rat \<Rightarrow> nat \<Rightarrow> SolverInput \<Rightarrow> bool" where
  "can_reach_finish current_time current_idx inp =
     (let t_to_finish = travel_time inp current_idx FINISH_IDX;
          finish_arrival = float_add current_time t_to_finish
      in if finish_arrival > of_int (end_time inp) then False
         else
           let slot = arrival_to_slot_index finish_arrival inp
           in if slot < 0 \<or> slot \<ge> int (n_slots inp) then False
              else finish_search inp finish_arrival (nat slot))"

subsection \<open>The bitmask dynamic programme\<close>

text \<open>
  The state of the fill: the vector \<^verbatim>\<open>dp\<close>, the vector \<^verbatim>\<open>parent\<close> (\<^verbatim>\<open>-2\<close> unvisited, \<^verbatim>\<open>-1\<close> from
  Start, else \<^verbatim>\<open>(prev_mask << 5) | prev_pos\<close>) and the buckets \<^verbatim>\<open>masks_by_pc\<close>.
\<close>

record dp_state =
  dp :: "nat \<Rightarrow> rat"
  parent :: "nat \<Rightarrow> int"
  masks_by_pc :: "nat \<Rightarrow> nat list"

definition idx :: "nat \<Rightarrow> nat \<Rightarrow> nat \<Rightarrow> nat" where
  "idx N msk pos = msk * N + pos"

definition initial_state :: dp_state where
  "initial_state = \<lparr> dp = (\<lambda>_. INF_TIME), parent = (\<lambda>_. - 2), masks_by_pc = (\<lambda>_. []) \<rparr>"

text \<open>Body of the loop \<^verbatim>\<open>Initialize: Start -> each intermediate CP\<close>.\<close>

definition init_step :: "SolverInput \<Rightarrow> nat \<Rightarrow> dp_state \<Rightarrow> dp_state" where
  "init_step inp j st =
     (let depart_start = of_int (start_time inp);
          arr = float_add depart_start (travel_time inp START_IDX j);
          open_time = find_next_open_time j arr inp
      in if open_time < 0 then st
         else
           let depart_j = float_add open_time (of_int (dwell inp))
           in if depart_j > of_int (end_time inp) then st
              else if \<not> can_reach_finish depart_j j inp then st
              else
                let msk = push_bit j 1;
                    si = idx (n_checkpoints inp) msk j
                in if depart_j < dp st si
                   then st\<lparr> dp := (dp st)(si := depart_j),
                            parent := (parent st)(si := - 1) \<rparr>
                   else st)"

text \<open>Body of the loop that fills \<^verbatim>\<open>masks_by_pc[1]\<close>.\<close>

definition bucket_step :: "SolverInput \<Rightarrow> nat \<Rightarrow> dp_state \<Rightarrow> dp_state" where
  "bucket_step inp j st =
     (let msk = push_bit j 1;
          si = idx (n_checkpoints inp) msk j
      in if dp st si < INF_TIME
         then st\<lparr> masks_by_pc := (masks_by_pc st)(1 := masks_by_pc st 1 @ [msk]) \<rparr>
         else st)"

text \<open>\<^verbatim>\<open>std::sort\<close> followed by \<^verbatim>\<open>erase(std::unique(...))\<close> on one bucket.\<close>

definition dedup_bucket :: "nat \<Rightarrow> dp_state \<Rightarrow> dp_state" where
  "dedup_bucket k st =
     st\<lparr> masks_by_pc := (masks_by_pc st)(k := remdups_adj (sort (masks_by_pc st k))) \<rparr>"

text \<open>Body of the innermost loop \<^verbatim>\<open>Try extending to each unvisited CP\<close>.\<close>

definition extend_step ::
  "SolverInput \<Rightarrow> nat \<Rightarrow> nat \<Rightarrow> nat \<Rightarrow> rat \<Rightarrow> nat \<Rightarrow> dp_state \<Rightarrow> dp_state" where
  "extend_step inp pc msk i depart_i j st =
     (if msk AND push_bit j 1 \<noteq> 0 then st
      else
        let arr_j = float_add depart_i (travel_time inp i j)
        in if arr_j > of_int (end_time inp) then st
           else
             let open_time = find_next_open_time j arr_j inp
             in if open_time < 0 then st
                else
                  let depart_j = float_add open_time (of_int (dwell inp))
                  in if depart_j > of_int (end_time inp) then st
                     else if \<not> can_reach_finish depart_j j inp then st
                     else
                       let new_mask = msk OR push_bit j 1;
                           new_si = idx (n_checkpoints inp) new_mask j
                       in if depart_j < dp st new_si
                          then
                            let npc = pc + 1
                            in st\<lparr> dp := (dp st)(new_si := depart_j),
                                   parent := (parent st)
                                     (new_si := push_bit 5 (int msk) OR int i),
                                   masks_by_pc := (masks_by_pc st)
                                     (npc := masks_by_pc st npc @ [new_mask]) \<rparr>
                          else st)"

definition process_pos :: "SolverInput \<Rightarrow> nat \<Rightarrow> nat \<Rightarrow> nat \<Rightarrow> dp_state \<Rightarrow> dp_state" where
  "process_pos inp pc msk i st =
     (if \<not> (msk AND push_bit i 1 \<noteq> 0) then st
      else
        let si = idx (n_checkpoints inp) msk i
        in if dp st si \<ge> INF_TIME then st
           else
             let depart_i = dp st si
             in fold (extend_step inp pc msk i depart_i) [0..<n_checkpoints inp] st)"

definition process_mask :: "SolverInput \<Rightarrow> nat \<Rightarrow> nat \<Rightarrow> dp_state \<Rightarrow> dp_state" where
  "process_mask inp pc msk st = fold (process_pos inp pc msk) [0..<n_checkpoints inp] st"

text \<open>One round of \<^verbatim>\<open>for (int pc = 1; pc < N; pc++)\<close>: the range-for reads bucket \<^verbatim>\<open>pc\<close>,
  the body appends to bucket \<^verbatim>\<open>pc + 1\<close> only.\<close>

definition dp_round :: "SolverInput \<Rightarrow> nat \<Rightarrow> dp_state \<Rightarrow> dp_state" where
  "dp_round inp pc st =
     (let st' = fold (process_mask inp pc) (masks_by_pc st pc) st
      in if pc + 1 \<le> n_checkpoints inp then dedup_bucket (pc + 1) st' else st')"

definition dp_fill :: "SolverInput \<Rightarrow> dp_state" where
  "dp_fill inp =
     (let N = n_checkpoints inp;
          st1 = fold (init_step inp) [0..<N] initial_state;
          st2 = fold (bucket_step inp) [0..<N] st1;
          st3 = dedup_bucket 1 st2
      in fold (dp_round inp) [1..<N] st3)"

subsection \<open>Objective selector\<close>

record best =
  best_count :: int
  best_finish_time :: rat
  best_mask :: int
  best_last :: int

definition initial_best :: best where
  "initial_best = \<lparr> best_count = - 1, best_finish_time = INF_TIME,
                    best_mask = - 1, best_last = - 1 \<rparr>"

text \<open>The loop with \<^verbatim>\<open>break\<close> that sets \<^verbatim>\<open>actual_finish\<close>, which starts as \<^verbatim>\<open>-1.0f\<close>.\<close>

function actual_finish_search :: "SolverInput \<Rightarrow> rat \<Rightarrow> nat \<Rightarrow> rat" where
  "actual_finish_search inp finish_arr s =
     (if s < n_slots inp
      then (if finish_open inp s
            then (if finish_arr > of_int (slot_starts inp s)
                  then finish_arr else of_int (slot_starts inp s))
            else actual_finish_search inp finish_arr (Suc s))
      else - 1)"
  by pat_completeness auto
termination
  by (relation "measure (\<lambda>(inp, finish_arr, s). n_slots inp - s)") auto

definition scan_pos ::
  "SolverInput \<Rightarrow> (nat \<Rightarrow> rat) \<Rightarrow> nat \<Rightarrow> int \<Rightarrow> nat \<Rightarrow> best \<Rightarrow> best" where
  "scan_pos inp dpv msk cnt i b =
     (let si = idx (n_checkpoints inp) msk i
      in if dpv si \<ge> INF_TIME then b
         else
           let finish_arr = float_add (dpv si) (travel_time inp i FINISH_IDX)
           in if finish_arr > of_int (end_time inp) then b
              else
                let fslot = arrival_to_slot_index finish_arr inp
                in if fslot < 0 then b
                   else
                     let actual_finish = actual_finish_search inp finish_arr (nat fslot)
                     in if actual_finish < 0 \<or> actual_finish > of_int (end_time inp) then b
                        else if cnt > best_count b \<or>
                                (cnt = best_count b \<and> actual_finish < best_finish_time b)
                        then \<lparr> best_count = cnt, best_finish_time = actual_finish,
                               best_mask = int msk, best_last = int i \<rparr>
                        else b)"

definition scan_mask :: "SolverInput \<Rightarrow> (nat \<Rightarrow> rat) \<Rightarrow> nat \<Rightarrow> best \<Rightarrow> best" where
  "scan_mask inp dpv msk b =
     (let cnt = int (popcount msk)
      in fold (scan_pos inp dpv msk cnt) [0..<n_checkpoints inp] b)"

definition find_best :: "SolverInput \<Rightarrow> (nat \<Rightarrow> rat) \<Rightarrow> best" where
  "find_best inp dpv = fold (scan_mask inp dpv) [1..<push_bit (n_checkpoints inp) 1] initial_best"

subsection \<open>Route reconstruction and \<^verbatim>\<open>solve\<close>\<close>

text \<open>
  The \<^verbatim>\<open>while (true)\<close> loop writes \<^verbatim>\<open>route_buf[route_len++]\<close> into a buffer of \<^verbatim>\<open>MAX_CP\<close>
  entries. A write past the buffer has no defined behaviour: the model returns \<open>None\<close>
  there, which also bounds the loop.
\<close>

function reconstruct ::
  "nat \<Rightarrow> (nat \<Rightarrow> int) \<Rightarrow> nat \<Rightarrow> nat \<Rightarrow> nat list \<Rightarrow> nat list option" where
  "reconstruct N par cur_mask cur_pos route_buf =
     (if length route_buf \<ge> MAX_CP then None
      else
        let route_buf' = route_buf @ [cur_pos];
            si = idx N cur_mask cur_pos;
            p = par si
        in if p = - 1 then Some route_buf'
           else if p = - 2 then Some route_buf'
           else
             let prev_pos = p AND 31;
                 prev_mask = drop_bit 5 p
             in reconstruct N par (nat prev_mask) (nat prev_pos) route_buf')"
  by pat_completeness auto
termination
  by (relation "measure (\<lambda>(N, par, cur_mask, cur_pos, route_buf). MAX_CP - length route_buf)")
     auto

definition solve :: "SolverInput \<Rightarrow> SolverResult option" where
  "solve inp =
     (let N = n_checkpoints inp;
          st = dp_fill inp;
          b = find_best inp (dp st)
      in if best_count b < 0
         then Some \<lparr> count = 0, route = [], route_length = 0, finish_time = 0 \<rparr>
         else
           (case reconstruct N (parent st) (nat (best_mask b)) (nat (best_last b)) [] of
              None \<Rightarrow> None
            | Some route_buf \<Rightarrow>
                Some \<lparr> count = best_count b, route = rev route_buf,
                       route_length = length route_buf,
                       finish_time = best_finish_time b \<rparr>))"

subsection \<open>The output array of the bridge\<close>

text \<open>
  \<^verbatim>\<open>[count, route_length, finish_time_x100, route[0], route[1], ...]\<close>, the third entry being
  \<^verbatim>\<open>(int)(result.finish_time * 100.0f)\<close>: the float product, rounded, is truncated.
\<close>

definition encode_result :: "SolverResult \<Rightarrow> int list" where
  "encode_result res =
     [count res, int (route_length res), float_to_int (float_mul (finish_time res) 100)]
     @ map (\<lambda>i. int (route res ! i)) [0..<route_length res]"

definition solveNative :: "SolverInput \<Rightarrow> int list option" where
  "solveNative inp = map_option encode_result (solve inp)"


section \<open>Notions of the specification\<close>

text \<open>
  The canonical slot start as the specification words it: \<open>whole = \<lfloor>t\<rfloor>\<close>,
  \<open>h = whole \<div> 60\<close>, \<open>m = whole mod 60\<close>, \<open>canonical = 60\<cdot>h + (30 if m > 30 else 0)\<close>.
\<close>

definition spec_canonical :: "rat \<Rightarrow> int" where
  "spec_canonical t =
     (let whole = \<lfloor>t\<rfloor>; h = whole div 60; m = whole mod 60
      in 60 * h + (if m > 30 then 30 else 0))"

text \<open>
  The slot index at which \<^verbatim>\<open>find_next_open_time\<close> starts its scan: the index of the
  arrival time, or 0 when that index is none (\<^verbatim>\<open>if (slot < 0) slot = 0\<close>).
\<close>

definition scan_start :: "rat \<Rightarrow> SolverInput \<Rightarrow> nat" where
  "scan_start t inp =
     (let slot = arrival_to_slot_index t inp in if slot < 0 then 0 else nat slot)"

text \<open>The mask of a list of checkpoints: bit \<open>c\<close> is set for every member \<open>c\<close>.\<close>

fun mask_of :: "nat list \<Rightarrow> nat" where
  "mask_of [] = 0"
| "mask_of (c # cs) = push_bit c 1 OR mask_of cs"

text \<open>
  Serving checkpoint \<open>j\<close> on arrival at \<open>arr\<close>, with the checks the solver makes before it
  records a state, in the order of the source: the open time is found, the departure
  (open time plus dwell) is not after the end time, and Finish can be reached from \<open>j\<close> at
  the departure. The result is the departure time.
\<close>

definition serve :: "SolverInput \<Rightarrow> rat \<Rightarrow> nat \<Rightarrow> rat option" where
  "serve inp arr j =
     (let open_time = find_next_open_time j arr inp
      in if open_time < 0 then None
         else
           let depart_j = float_add open_time (of_int (dwell inp))
           in if depart_j > of_int (end_time inp) then None
              else if \<not> can_reach_finish depart_j j inp then None
              else Some depart_j)"

text \<open>
  The routes the solver builds, with their departure time from the last checkpoint: a
  first checkpoint served from Start at the start time, and an extension of such a route
  by a checkpoint not yet on it, reached not after the end time and served.
\<close>

inductive solver_route :: "SolverInput \<Rightarrow> nat list \<Rightarrow> rat \<Rightarrow> bool" for inp where
  first: "j < n_checkpoints inp \<Longrightarrow>
      serve inp (float_add (of_int (start_time inp)) (travel_time inp START_IDX j)) j = Some d \<Longrightarrow>
      solver_route inp [j] d"
| extend: "solver_route inp r d \<Longrightarrow> j < n_checkpoints inp \<Longrightarrow> j \<notin> set r \<Longrightarrow>
      \<not> float_add d (travel_time inp (last r) j) > of_int (end_time inp) \<Longrightarrow>
      serve inp (float_add d (travel_time inp (last r) j)) j = Some d' \<Longrightarrow>
      solver_route inp (r @ [j]) d'"

text \<open>
  Temporal feasibility as the specification defines it (testable property 2): from
  \<open>t\<^sub>0 = start_time\<close>, each checkpoint \<open>c\<^sub>i\<close> is reached at
  \<open>arr\<^sub>i = dep\<^sub>i\<^sub>-\<^sub>1 + T[prev, c\<^sub>i]\<close>, opens at \<open>earliest_open(c\<^sub>i, arr\<^sub>i)\<close>, which must be
  defined, and is left at \<open>dep\<^sub>i = open\<^sub>i + dwell\<close>, which must not exceed the end time.
  The specification takes 32-bit floats to match the reference, so the times of a route
  are the ones the reference computes: every sum is a float sum.
\<close>

definition visit :: "SolverInput \<Rightarrow> rat \<Rightarrow> nat \<Rightarrow> rat option" where
  "visit inp arr c =
     (let open_time = find_next_open_time c arr inp
      in if open_time < 0 then None
         else if float_add open_time (of_int (dwell inp)) > of_int (end_time inp) then None
         else Some (float_add open_time (of_int (dwell inp))))"

fun route_depart :: "SolverInput \<Rightarrow> nat \<Rightarrow> rat \<Rightarrow> nat list \<Rightarrow> rat option" where
  "route_depart inp u t [] = Some t"
| "route_depart inp u t (c # cs) =
     (case visit inp (float_add t (travel_time inp u c)) c of
        None \<Rightarrow> None
      | Some d \<Rightarrow> route_depart inp c d cs)"

text \<open>
  The actual finish minute of section 4.4: \<open>t\<^sub>f = t + T[i, Finish]\<close>, then the first slot
  \<open>s \<ge> slot_of(t\<^sub>f)\<close> with \<open>finish_open[s]\<close> gives \<open>max(t\<^sub>f, slot_starts[s])\<close>; there is none
  when no such slot exists or when it exceeds the end time.
\<close>

definition finish_arrival :: "SolverInput \<Rightarrow> rat \<Rightarrow> nat \<Rightarrow> rat option" where
  "finish_arrival inp t i =
     (let finish_arr = float_add t (travel_time inp i FINISH_IDX)
      in if finish_arr > of_int (end_time inp) then None
         else
           let fslot = arrival_to_slot_index finish_arr inp
           in if fslot < 0 then None
              else
                let actual_finish = actual_finish_search inp finish_arr (nat fslot)
                in if actual_finish < 0 \<or> actual_finish > of_int (end_time inp) then None
                   else Some actual_finish)"

text \<open>The finish time of a route of at least one checkpoint, when it is feasible.\<close>

definition route_finish :: "SolverInput \<Rightarrow> nat list \<Rightarrow> rat option" where
  "route_finish inp r =
     (if r = [] then None
      else case route_depart inp START_IDX (of_int (start_time inp)) r of
             None \<Rightarrow> None
           | Some d \<Rightarrow> finish_arrival inp d (last r))"

definition feasible_route :: "SolverInput \<Rightarrow> nat list \<Rightarrow> bool" where
  "feasible_route inp r \<longleftrightarrow>
     distinct r \<and> list_all (\<lambda>c. c < n_checkpoints inp) r \<and> route_finish inp r \<noteq> None"

text \<open>A route every non-empty prefix of which is a feasible route: the walker could
  go to Finish after each of its checkpoints.\<close>

definition prefix_feasible :: "SolverInput \<Rightarrow> nat list \<Rightarrow> bool" where
  "prefix_feasible inp r \<longleftrightarrow>
     r \<noteq> [] \<and> list_all (\<lambda>k. feasible_route inp (take k r)) [1..<Suc (length r)]"

text \<open>
  Valid input: the sizes are within the compile-time maxima, travel times and dwell are
  not negative, the slot table lists every half hour from a whole hour of the day on, and
  the end time is below the solver's infinity. The start time, the end time, the dwell and
  the slot starts, which the solver converts to floats, are at most \<open>2\<^sup>2\<^sup>4\<close> in magnitude, so
  that each conversion is exact.
\<close>

definition valid_input :: "SolverInput \<Rightarrow> bool" where
  "valid_input inp \<longleftrightarrow>
     1 \<le> n_checkpoints inp \<and> n_checkpoints inp \<le> MAX_CP \<and>
     1 \<le> n_slots inp \<and> n_slots inp \<le> MAX_SLOTS \<and>
     list_all (\<lambda>u. list_all (\<lambda>v. 0 \<le> travel_time inp u v) [0..<ALL_NODES]) [0..<ALL_NODES] \<and>
     0 \<le> dwell inp \<and>
     0 \<le> slot_starts inp 0 \<and> slot_starts inp 0 mod 60 = 0 \<and>
     list_all (\<lambda>s. slot_starts inp s = slot_starts inp 0 + 30 * int s) [0..<n_slots inp] \<and>
     of_int (end_time inp) < INF_TIME \<and>
     list_all (\<lambda>n. \<bar>n\<bar> \<le> 16777216)
       [start_time inp, end_time inp, dwell inp, slot_starts inp (n_slots inp - 1)]"

text \<open>The second input relaxes the first: more openings, travel times not higher,
  everything else the solver reads the same.\<close>

definition relaxes :: "SolverInput \<Rightarrow> SolverInput \<Rightarrow> bool" where
  "relaxes inp inp' \<longleftrightarrow>
     n_checkpoints inp' = n_checkpoints inp \<and> n_slots inp' = n_slots inp \<and>
     list_all (\<lambda>s. slot_starts inp' s = slot_starts inp s) [0..<n_slots inp] \<and>
     dwell inp' = dwell inp \<and>
     start_time inp' = start_time inp \<and> end_time inp' = end_time inp \<and>
     list_all (\<lambda>c. list_all (\<lambda>s. open_at inp c s \<longrightarrow> open_at inp' c s) [0..<n_slots inp])
       [0..<n_checkpoints inp] \<and>
     list_all (\<lambda>s. finish_open inp s \<longrightarrow> finish_open inp' s) [0..<n_slots inp] \<and>
     list_all (\<lambda>u. list_all (\<lambda>v. travel_time inp' u v \<le> travel_time inp u v) [0..<ALL_NODES])
       [0..<ALL_NODES]"

text \<open>
  The invariant of the fill. No entry of \<^verbatim>\<open>dp\<close> exceeds the solver's infinity. Every entry
  below it, at a mask and a last checkpoint, is the departure time of a route the solver
  has built with that mask and that last checkpoint, and its parent code is either
  \<open>-1\<close>, the mask being the single bit of the checkpoint, or the packed mask and last
  checkpoint of an entry below infinity from which the checkpoint was added.
\<close>

definition dp_inv :: "SolverInput \<Rightarrow> dp_state \<Rightarrow> bool" where
  "dp_inv inp st \<longleftrightarrow>
     (\<forall>z. dp st z \<le> INF_TIME) \<and>
     (\<forall>msk i. i < n_checkpoints inp \<longrightarrow> dp st (idx (n_checkpoints inp) msk i) < INF_TIME \<longrightarrow>
        (\<exists>r. solver_route inp r (dp st (idx (n_checkpoints inp) msk i)) \<and>
             mask_of r = msk \<and> last r = i) \<and>
        (parent st (idx (n_checkpoints inp) msk i) = - 1 \<and> msk = push_bit i 1 \<or>
         (\<exists>m' i'. parent st (idx (n_checkpoints inp) msk i) = push_bit 5 (int m') OR int i' \<and>
             i' < n_checkpoints inp \<and> \<not> bit m' i \<and> msk = m' OR push_bit i 1 \<and>
             dp st (idx (n_checkpoints inp) m' i') < INF_TIME)))"

text \<open>
  A candidate of the final scan: an entry of \<^verbatim>\<open>dp\<close> below infinity from which the actual
  finish minute \<open>af\<close> exists. The invariant of the scan over the set \<open>V\<close> of pairs seen so
  far: every candidate in \<open>V\<close> has fewer checkpoints than the running best, or as many and
  no earlier finish; and the running best is unset (\<open>-1\<close>) or is a candidate in \<open>V\<close>.
\<close>

definition candidate :: "SolverInput \<Rightarrow> (nat \<Rightarrow> rat) \<Rightarrow> nat \<Rightarrow> nat \<Rightarrow> rat \<Rightarrow> bool" where
  "candidate inp dpv msk i af \<longleftrightarrow>
     i < n_checkpoints inp \<and> dpv (idx (n_checkpoints inp) msk i) < INF_TIME \<and>
     finish_arrival inp (dpv (idx (n_checkpoints inp) msk i)) i = Some af"

definition best_inv :: "SolverInput \<Rightarrow> (nat \<Rightarrow> rat) \<Rightarrow> (nat \<times> nat) set \<Rightarrow> best \<Rightarrow> bool" where
  "best_inv inp dpv V b \<longleftrightarrow>
     (\<forall>m i af. (m, i) \<in> V \<longrightarrow> candidate inp dpv m i af \<longrightarrow>
        int (popcount m) < best_count b \<or>
        (int (popcount m) = best_count b \<and> best_finish_time b \<le> af)) \<and>
     (best_count b = - 1 \<or>
      (\<exists>m i. (m, i) \<in> V \<and> candidate inp dpv m i (best_finish_time b) \<and>
         best_mask b = int m \<and> best_last b = int i \<and> best_count b = int (popcount m)))"

text \<open>
  The invariant of the buckets: every mask in bucket \<open>k\<close> has \<open>k\<close> bits, and the mask of
  every entry of \<^verbatim>\<open>dp\<close> below infinity is in the bucket of its number of bits.
\<close>

definition bucket_inv :: "SolverInput \<Rightarrow> dp_state \<Rightarrow> bool" where
  "bucket_inv inp st \<longleftrightarrow>
     (\<forall>k m. m \<in> set (masks_by_pc st k) \<longrightarrow> card {b. bit m b} = k) \<and>
     (\<forall>msk i. i < n_checkpoints inp \<longrightarrow> dp st (idx (n_checkpoints inp) msk i) < INF_TIME \<longrightarrow>
        msk \<in> set (masks_by_pc st (card {b. bit msk b})))"

text \<open>The fill is complete up to \<open>k\<close> checkpoints: the entry of every route the solver
  can build with at most \<open>k\<close> checkpoints is not above the departure time of the route.\<close>

definition complete_upto :: "SolverInput \<Rightarrow> nat \<Rightarrow> dp_state \<Rightarrow> bool" where
  "complete_upto inp k st \<longleftrightarrow>
     (\<forall>r d. solver_route inp r d \<longrightarrow> length r \<le> k \<longrightarrow>
        dp st (idx (n_checkpoints inp) (mask_of r) (last r)) \<le> d)"

section \<open>Concrete inputs\<close>

text \<open>A slot table that starts on a half hour: 10:30 and 11:00.\<close>

definition half_hour_input :: SolverInput where
  "half_hour_input = \<lparr> n_checkpoints = 1, n_slots = 2,
     travel_time = (\<lambda>u v. 0),
     open_at = (\<lambda>c s. True), finish_open = (\<lambda>s. True),
     slot_starts = (\<lambda>s. if s = 0 then 630 else 660),
     speed = 1, dwell = 0, naismith = 10, start_time = 630, end_time = 700 \<rparr>"

text \<open>Scenario S2: one checkpoint, five minutes from Start and five minutes from Finish,
  slot 10:00 open for both.\<close>

definition S2_input :: SolverInput where
  "S2_input = \<lparr> n_checkpoints = 1, n_slots = 1,
     travel_time = (\<lambda>u v. if u = 17 \<and> v = 0 then 5 else if u = 0 \<and> v = 18 then 5 else 0),
     open_at = (\<lambda>c s. True), finish_open = (\<lambda>s. True),
     slot_starts = (\<lambda>s. 600),
     speed = 1, dwell = 7, naismith = 10, start_time = 600, end_time = 700 \<rparr>"

text \<open>Scenario S3: ten minutes from Start to checkpoint 0, which is closed in slot 10:00
  and open in slot 10:30.\<close>

definition S3_input :: SolverInput where
  "S3_input = \<lparr> n_checkpoints = 1, n_slots = 2,
     travel_time = (\<lambda>u v. if u = 17 \<and> v = 0 then 10 else 5),
     open_at = (\<lambda>c s. s = 1), finish_open = (\<lambda>s. True),
     slot_starts = (\<lambda>s. if s = 0 then 600 else 630),
     speed = 1, dwell = 7, naismith = 10, start_time = 600, end_time = 700 \<rparr>"

text \<open>Scenario S1: one checkpoint, closed in every slot.\<close>

definition S1_input :: SolverInput where
  "S1_input = \<lparr> n_checkpoints = 1, n_slots = 1,
     travel_time = (\<lambda>u v. 5),
     open_at = (\<lambda>c s. False), finish_open = (\<lambda>s. True),
     slot_starts = (\<lambda>s. 600),
     speed = 1, dwell = 7, naismith = 10, start_time = 600, end_time = 700 \<rparr>"

text \<open>Scenario S2 with a travel time to Finish of 5 + 1/128 minutes, a float without
  rounding error, so that the finish time has a fraction of a centi-minute.\<close>

definition fraction_input :: SolverInput where
  "fraction_input = \<lparr> n_checkpoints = 1, n_slots = 1,
     travel_time = (\<lambda>u v. if u = 17 \<and> v = 0 then 5 else if u = 0 \<and> v = 18 then 641 / 128 else 0),
     open_at = (\<lambda>c s. True), finish_open = (\<lambda>s. True),
     slot_starts = (\<lambda>s. 600),
     speed = 1, dwell = 7, naismith = 10, start_time = 600, end_time = 700 \<rparr>"

text \<open>One checkpoint at Start, no dwell, and 471/2048 of a minute to Finish: the finish
  time 600.22998046875 is a float, its hundredfold 60022.998046875 is not.\<close>

definition product_input :: SolverInput where
  "product_input = \<lparr> n_checkpoints = 1, n_slots = 1,
     travel_time = (\<lambda>u v. if u = 0 \<and> v = 18 then 471 / 2048 else 0),
     open_at = (\<lambda>c s. True), finish_open = (\<lambda>s. True),
     slot_starts = (\<lambda>s. 600),
     speed = 1, dwell = 0, naismith = 10, start_time = 600, end_time = 700 \<rparr>"

text \<open>One checkpoint at Start, no dwell, started at 10:30, with \<open>1 - 2\<^sup>-\<^sup>2\<^sup>4\<close> minutes to
  Finish, which is open in the slot of 10:00 and closed in the slot of 10:30.\<close>

definition round_slot_input :: SolverInput where
  "round_slot_input = \<lparr> n_checkpoints = 1, n_slots = 2,
     travel_time = (\<lambda>u v. if u = 0 \<and> v = 18 then 1 - 1 / 2 ^ 24 else 0),
     open_at = (\<lambda>c s. True), finish_open = (\<lambda>s. s = 0),
     slot_starts = (\<lambda>s. 600 + 30 * int s),
     speed = 1, dwell = 0, naismith = 10, start_time = 630, end_time = 700 \<rparr>"

text \<open>Scenario S2 with \<open>88 + 2\<^sup>-\<^sup>1\<^sup>7\<close> minutes from checkpoint 0 to Finish: the exact arrival
  is after the end time, the float sum is the end time.\<close>

definition round_end_input :: SolverInput where
  "round_end_input = \<lparr> n_checkpoints = 1, n_slots = 1,
     travel_time = (\<lambda>u v. if u = 17 \<and> v = 0 then 5
                           else if u = 0 \<and> v = 18 then 88 + 1 / 2 ^ 17 else 0),
     open_at = (\<lambda>c s. True), finish_open = (\<lambda>s. True),
     slot_starts = (\<lambda>s. 600),
     speed = 1, dwell = 7, naismith = 10, start_time = 600, end_time = 700 \<rparr>"

text \<open>Scenario S2 with the float nearest to a fifth of a minute, \<open>13421773 / 2\<^sup>2\<^sup>6\<close>, from
  checkpoint 0 to Finish.\<close>

definition fifth_input :: SolverInput where
  "fifth_input = \<lparr> n_checkpoints = 1, n_slots = 1,
     travel_time = (\<lambda>u v. if u = 17 \<and> v = 0 then 5
                           else if u = 0 \<and> v = 18 then 13421773 / 67108864 else 0),
     open_at = (\<lambda>c s. True), finish_open = (\<lambda>s. True),
     slot_starts = (\<lambda>s. 600),
     speed = 1, dwell = 7, naismith = 10, start_time = 600, end_time = 700 \<rparr>"

text \<open>Two checkpoints, all slots open; checkpoint 0 is 200 minutes from Finish, every
  other leg takes 5 minutes.\<close>

definition far_input :: SolverInput where
  "far_input = \<lparr> n_checkpoints = 2, n_slots = 4,
     travel_time = (\<lambda>u v. if u = 0 \<and> v = 18 then 200 else 5),
     open_at = (\<lambda>c s. True), finish_open = (\<lambda>s. True),
     slot_starts = (\<lambda>s. 600 + 30 * int s),
     speed = 1, dwell = 7, naismith = 10, start_time = 600, end_time = 700 \<rparr>"

text \<open>Three checkpoints, all slots open; checkpoint 2 is 200 minutes from Finish but one
  minute from Start and from checkpoint 1, which is one minute from Finish; every other
  leg takes 10 minutes.\<close>

definition detour_input :: SolverInput where
  "detour_input = \<lparr> n_checkpoints = 3, n_slots = 4,
     travel_time = (\<lambda>u v.
        if v = 18 then (if u = 2 then 200 else if u = 1 then 1 else 10)
        else if u = 17 then (if v = 2 then 1 else 10)
        else if u = 2 \<and> v = 1 then 1 else 10),
     open_at = (\<lambda>c s. True), finish_open = (\<lambda>s. True),
     slot_starts = (\<lambda>s. 600 + 30 * int s),
     speed = 1, dwell = 7, naismith = 10, start_time = 600, end_time = 700 \<rparr>"

text \<open>Three checkpoints, all slots open, that can all be visited: checkpoint \<open>v\<close> is
  \<open>5 + v\<close> minutes from Start, checkpoint \<open>u\<close> is \<open>8 - u\<close> minutes from Finish, and two
  checkpoints are five and a quarter minutes apart.\<close>

definition triple_input :: SolverInput where
  "triple_input = \<lparr> n_checkpoints = 3, n_slots = 4,
     travel_time = (\<lambda>u v. if u = 17 then 5 + of_nat v
                           else if v = 18 then 8 - of_nat u else 5 + 1 / 4),
     open_at = (\<lambda>c s. True), finish_open = (\<lambda>s. True),
     slot_starts = (\<lambda>s. 600 + 30 * int s),
     speed = 1, dwell = 7, naismith = 10, start_time = 600, end_time = 700 \<rparr>"

text \<open>One checkpoint and one slot that starts at 10:30, the start time; the checkpoint is
  at Start, there is no dwell, and Finish is one minute away in the first input and half
  a minute away in the second.\<close>

definition late_input :: SolverInput where
  "late_input = \<lparr> n_checkpoints = 1, n_slots = 1,
     travel_time = (\<lambda>u v. if u = 0 \<and> v = 18 then 1 else 0),
     open_at = (\<lambda>c s. True), finish_open = (\<lambda>s. True),
     slot_starts = (\<lambda>s. 630),
     speed = 1, dwell = 0, naismith = 10, start_time = 630, end_time = 700 \<rparr>"

definition late_input_relaxed :: SolverInput where
  "late_input_relaxed = \<lparr> n_checkpoints = 1, n_slots = 1,
     travel_time = (\<lambda>u v. if u = 0 \<and> v = 18 then 1 / 2 else 0),
     open_at = (\<lambda>c s. True), finish_open = (\<lambda>s. True),
     slot_starts = (\<lambda>s. 630),
     speed = 1, dwell = 0, naismith = 10, start_time = 630, end_time = 700 \<rparr>"

text \<open>A slot table that starts at minute 67108980, a whole hour that is not a float: the
  nearest float is 67108976. The checkpoint is eight minutes from Start in the first
  input and at Start in the second.\<close>

definition inexact_input :: SolverInput where
  "inexact_input = \<lparr> n_checkpoints = 1, n_slots = 1,
     travel_time = (\<lambda>u v. if u = 17 \<and> v = 0 then 8 else 0),
     open_at = (\<lambda>c s. True), finish_open = (\<lambda>s. True),
     slot_starts = (\<lambda>s. 67108980),
     speed = 1, dwell = 0, naismith = 10, start_time = 67108980, end_time = 67109080 \<rparr>"

definition inexact_input_relaxed :: SolverInput where
  "inexact_input_relaxed = \<lparr> n_checkpoints = 1, n_slots = 1,
     travel_time = (\<lambda>u v. 0),
     open_at = (\<lambda>c s. True), finish_open = (\<lambda>s. True),
     slot_starts = (\<lambda>s. 67108980),
     speed = 1, dwell = 0, naismith = 10, start_time = 67108980, end_time = 67109080 \<rparr>"

text \<open>Scenario S3 relaxed: checkpoint 0 is open in both slots and every leg takes at
  most as long as before.\<close>

definition S3_relaxed_input :: SolverInput where
  "S3_relaxed_input = \<lparr> n_checkpoints = 1, n_slots = 2,
     travel_time = (\<lambda>u v. if u = 17 \<and> v = 0 then 10 else 4),
     open_at = (\<lambda>c s. True), finish_open = (\<lambda>s. True),
     slot_starts = (\<lambda>s. if s = 0 then 600 else 630),
     speed = 1, dwell = 7, naismith = 10, start_time = 600, end_time = 700 \<rparr>"

section \<open>Properties\<close>

declare slot_search.simps [simp del] open_search.simps [simp del]
  finish_search.simps [simp del] actual_finish_search.simps [simp del]
  popcount_loop.simps [simp del] reconstruct.simps [simp del]

subsection \<open>Rounding to binary32\<close>

text \<open>Rounding is monotone, keeps every integer up to \<open>2\<^sup>2\<^sup>4\<close> and every float, and
  commutes with negation.\<close>

lemma rne_of_int: "rne (of_int k) = k"
  by (simp add: rne_def)

lemma rne_bounds: "x - 1 / 2 \<le> of_int (rne x) \<and> of_int (rne x) \<le> x + 1 / 2"
  unfolding rne_def Let_def by (auto simp: not_less) linarith+

lemma rne_mono:
  assumes "x \<le> y"
  shows "rne x \<le> rne y"
proof (rule ccontr)
  assume "\<not> rne x \<le> rne y"
  then have gt: "rne y + 1 \<le> rne x" by simp
  then have "(of_int (rne y) :: rat) + 1 \<le> of_int (rne x)"
    by (metis of_int_1 of_int_add of_int_le_iff)
  with rne_bounds [of x] rne_bounds [of y] assms
  have xy: "x = y" and hx: "of_int (rne x) = x + 1 / 2" by linarith+
  with gt show False by simp
qed

lemma rne_minus: "rne (- x) = - rne x"
proof (cases "x \<in> \<int>")
  case True
  then obtain k where "x = of_int k" by (auto elim: Ints_cases)
  then show ?thesis by (metis of_int_minus rne_of_int)
next
  case False
  then have "x \<noteq> of_int \<lfloor>x\<rfloor>" by (metis Ints_of_int)
  then have "\<lceil>x\<rceil> = \<lfloor>x\<rfloor> + 1" by (simp add: ceiling_altdef)
  then have fl: "\<lfloor>- x\<rfloor> = - \<lfloor>x\<rfloor> - 1"
    by (simp add: floor_minus)
  have fr: "x - of_int \<lfloor>x\<rfloor> < 1" "0 \<le> x - of_int \<lfloor>x\<rfloor>" by linarith+
  show ?thesis
    unfolding rne_def Let_def fl using fr
    by (auto simp: not_less) (linarith+)?
qed


lemma two_powi_pos: "0 < (2::rat) powi k"
  by (simp add: zero_less_power_int)

lemma two_powi_add: "(2::rat) powi (a + b) = 2 powi a * 2 powi b"
  by (simp add: power_int_add)

lemma two_powi_le: "a \<le> b \<Longrightarrow> (2::rat) powi a \<le> 2 powi b"
  by (rule power_int_increasing) simp_all

lemma two_powi_less_imp: "(2::rat) powi a < 2 powi b \<Longrightarrow> a < b"
  using two_powi_le [of b a] by (cases "a < b") auto

lemma bitlen_rat:
  assumes "0 < p"
  shows "(2::rat) powi (bitlen p - 1) \<le> of_int p" "of_int p < (2::rat) powi bitlen p"
proof -
  from bitlen_bounds [OF assms]
  have lo: "2 ^ nat (bitlen p - 1) \<le> p" and hi: "p < 2 ^ nat (bitlen p)" by simp_all
  have pos: "1 \<le> bitlen p"
  proof (rule ccontr)
    assume "\<not> 1 \<le> bitlen p"
    then have "nat (bitlen p) = 0" by simp
    with hi assms show False by simp
  qed
  have "(2::rat) powi (bitlen p - 1) = 2 ^ nat (bitlen p - 1)"
    using pos by (simp add: power_int_def)
  also have "\<dots> = of_int (2 ^ nat (bitlen p - 1))" by simp
  also have "\<dots> \<le> of_int p" using lo by (simp only: of_int_le_iff)
  finally show "(2::rat) powi (bitlen p - 1) \<le> of_int p" .
  have "(of_int p :: rat) < of_int (2 ^ nat (bitlen p))" using hi by (simp only: of_int_less_iff)
  also have "\<dots> = 2 ^ nat (bitlen p)" by simp
  also have "\<dots> = (2::rat) powi bitlen p" using pos by (simp add: power_int_def)
  finally show "of_int p < (2::rat) powi bitlen p" .
qed

lemma binade_bounds:
  assumes "0 < x"
  shows "2 powi binade x \<le> x" and "x < 2 powi (binade x + 1)"
proof -
  obtain p q where pq: "quotient_of x = (p, q)" by (cases "quotient_of x")
  have q: "0 < q" using pq by (rule quotient_of_denom_pos)
  have x: "x = of_int p / of_int q" using pq by (rule quotient_of_div)
  have p: "0 < p" using assms q unfolding x by (simp add: zero_less_divide_iff)
  define e where "e = bitlen p - bitlen q"
  note bp = bitlen_rat [OF p] and bq = bitlen_rat [OF q]
  have qr: "0 < (of_int q :: rat)" using q by simp
  have "x * of_int q = of_int p" using qr unfolding x by simp
  have "x * 2 powi (bitlen q - 1) \<le> x * of_int q"
    using bq(1) assms by (simp add: mult_left_mono)
  also have "\<dots> = of_int p" by fact
  also have "\<dots> < 2 powi bitlen p" by (rule bp(2))
  also have "\<dots> = 2 powi (e + 1) * 2 powi (bitlen q - 1)"
    unfolding e_def two_powi_add [symmetric] by simp
  finally have hi: "x < 2 powi (e + 1)"
    using two_powi_pos [of "bitlen q - 1"] by (simp add: mult_less_cancel_right)
  have "(2::rat) powi (e - 1) * 2 powi bitlen q = 2 powi (bitlen p - 1)"
    unfolding e_def two_powi_add [symmetric] by simp
  also have "\<dots> \<le> of_int p" by (rule bp(1))
  also have "\<dots> = x * of_int q" by (simp add: \<open>x * of_int q = of_int p\<close>)
  also have "\<dots> < x * 2 powi bitlen q"
    using bq(2) assms by (simp add: mult_strict_left_mono)
  finally have lo: "2 powi (e - 1) < x"
    using two_powi_pos [of "bitlen q"] by (simp add: mult_less_cancel_right)
  have b: "binade x = (if 2 powi e \<le> x then e else e - 1)"
    unfolding binade_def pq e_def by (simp add: Let_def)
  show "2 powi binade x \<le> x" using lo unfolding b by auto
  show "x < 2 powi (binade x + 1)" using hi unfolding b by (auto simp: not_le)
qed

lemma binade_unique:
  assumes "0 < x" and "2 powi e \<le> x" and "x < 2 powi (e + 1)"
  shows "binade x = e"
proof -
  from binade_bounds [OF assms(1)] assms(2,3)
  have "(2::rat) powi binade x < 2 powi (e + 1)" "(2::rat) powi e < 2 powi (binade x + 1)"
    by linarith+
  then have "binade x < e + 1" "e < binade x + 1" by (auto dest: two_powi_less_imp)
  then show ?thesis by simp
qed

lemma binade_mono:
  assumes "0 < x" and "x \<le> y"
  shows "binade x \<le> binade y"
proof -
  have y: "0 < y" using assms by simp
  from binade_bounds [OF assms(1)] binade_bounds [OF y] assms(2)
  have "(2::rat) powi binade x < 2 powi (binade y + 1)" by linarith
  then show ?thesis by (auto dest: two_powi_less_imp)
qed

lemma scaled_less:
  assumes "0 < x"
  shows "x / 2 powi ulp_exponent x < 2 ^ 24"
proof -
  define q where "q = ulp_exponent x"
  have "binade x - 23 \<le> q" using assms unfolding q_def ulp_exponent_def by simp
  then have "binade x + 1 \<le> q + 24" by simp
  then have "(2::rat) powi (binade x + 1) \<le> 2 powi (q + 24)" by (rule two_powi_le)
  also have "\<dots> = 2 powi q * 2 ^ 24" by (simp add: two_powi_add)
  finally have "x < 2 powi q * 2 ^ 24" using binade_bounds(2) [OF assms] by simp
  then show ?thesis
    unfolding q_def [symmetric] using two_powi_pos [of q]
    by (simp add: pos_divide_less_eq mult.commute)
qed

lemma scaled_ge:
  assumes "0 < x" and "- 149 < ulp_exponent x"
  shows "2 ^ 23 \<le> x / 2 powi ulp_exponent x"
proof -
  define q where "q = ulp_exponent x"
  have "q = binade x - 23" using assms unfolding q_def ulp_exponent_def by simp
  then have "binade x = q + 23" by simp
  then have "(2::rat) powi binade x = 2 powi q * 2 ^ 23" by (simp add: two_powi_add)
  then have "2 powi q * 2 ^ 23 \<le> x" using binade_bounds(1) [OF assms(1)] by simp
  then show ?thesis
    unfolding q_def [symmetric] using two_powi_pos [of q]
    by (simp add: pos_le_divide_eq mult.commute)
qed

lemma ulp_exponent_mono:
  "0 < x \<Longrightarrow> x \<le> y \<Longrightarrow> ulp_exponent x \<le> ulp_exponent y"
  using binade_mono [of x y] unfolding ulp_exponent_def by simp

lemma ulp_exponent_minus: "ulp_exponent (- x) = ulp_exponent x"
  by (simp add: ulp_exponent_def)

lemma round_float_minus: "round_float (- x) = - round_float x"
  by (simp add: round_float_def ulp_exponent_minus rne_minus Let_def)

lemma rne_nonneg: "0 \<le> x \<Longrightarrow> 0 \<le> rne x"
  using rne_mono [of 0 x] rne_of_int [of 0] by simp

lemma round_float_nonneg: "0 \<le> x \<Longrightarrow> 0 \<le> round_float x"
  using two_powi_pos [of "ulp_exponent x"]
  by (simp add: round_float_def Let_def rne_nonneg)

lemma round_float_mono_pos:
  assumes "0 < x" and "x \<le> y"
  shows "round_float x \<le> round_float y"
proof -
  have y: "0 < y" using assms by simp
  define qx where "qx = ulp_exponent x"
  define qy where "qy = ulp_exponent y"
  have rx: "round_float x = of_int (rne (x / 2 powi qx)) * 2 powi qx"
    using assms(1) by (simp add: round_float_def qx_def Let_def)
  have ry: "round_float y = of_int (rne (y / 2 powi qy)) * 2 powi qy"
    using y by (simp add: round_float_def qy_def Let_def)
  have le: "qx \<le> qy" unfolding qx_def qy_def using assms by (rule ulp_exponent_mono)
  show ?thesis
  proof (cases "qx = qy")
    case True
    have "x / 2 powi qy \<le> y / 2 powi qy"
      using assms(2) two_powi_pos [of qy] by (simp add: divide_right_mono)
    then have "rne (x / 2 powi qy) \<le> rne (y / 2 powi qy)" by (rule rne_mono)
    then have "(of_int (rne (x / 2 powi qy)) :: rat) \<le> of_int (rne (y / 2 powi qy))"
      by (simp only: of_int_le_iff)
    then show ?thesis
      unfolding rx ry True using two_powi_pos [of qy] by (simp add: mult_right_mono)
  next
    case False
    with le have lt: "qx + 1 \<le> qy" by simp
    then have "- 149 < qy" unfolding qx_def ulp_exponent_def by simp
    then have "2 ^ 23 \<le> y / 2 powi qy" unfolding qy_def using y by (intro scaled_ge)
    then have "rne (2 ^ 23) \<le> rne (y / 2 powi qy)" by (rule rne_mono)
    moreover have "rne (2 ^ 23) = 2 ^ 23" using rne_of_int [of "2 ^ 23"] by simp
    ultimately have "(of_int (2 ^ 23) :: rat) \<le> of_int (rne (y / 2 powi qy))"
      by (simp only: of_int_le_iff)
    then have ylo: "2 ^ 23 * 2 powi qy \<le> round_float y"
      unfolding ry using two_powi_pos [of qy] by (simp add: mult_right_mono)
    have "x / 2 powi qx \<le> 2 ^ 24" unfolding qx_def using scaled_less [OF assms(1)] by simp
    then have "rne (x / 2 powi qx) \<le> rne (2 ^ 24)" by (rule rne_mono)
    moreover have "rne (2 ^ 24) = 2 ^ 24" using rne_of_int [of "2 ^ 24"] by simp
    ultimately have "(of_int (rne (x / 2 powi qx)) :: rat) \<le> of_int (2 ^ 24)"
      by (simp only: of_int_le_iff)
    then have "round_float x \<le> 2 ^ 24 * 2 powi qx"
      unfolding rx using two_powi_pos [of qx] by (simp add: mult_right_mono)
    also have "\<dots> = 2 ^ 23 * 2 powi (qx + 1)" by (simp add: two_powi_add)
    also have "\<dots> \<le> 2 ^ 23 * 2 powi qy" using two_powi_le [OF lt] by simp
    finally show ?thesis using ylo by simp
  qed
qed

lemma round_float_0: "round_float 0 = 0"
  by (simp add: round_float_def)

lemma round_float_mono:
  assumes "x \<le> y"
  shows "round_float x \<le> round_float y"
proof -
  consider "0 < x" | "y < 0" | "x \<le> 0" "0 \<le> y" by linarith
  then show ?thesis
  proof cases
    case 1
    then show ?thesis using assms by (rule round_float_mono_pos)
  next
    case 2
    then have "round_float (- y) \<le> round_float (- x)"
      using assms by (intro round_float_mono_pos) simp_all
    then show ?thesis by (simp add: round_float_minus)
  next
    case 3
    have "0 \<le> round_float (- x)" using 3 by (intro round_float_nonneg) simp
    then have "round_float x \<le> 0" by (simp add: round_float_minus)
    also have "0 \<le> round_float y" using 3 by (intro round_float_nonneg)
    finally show ?thesis .
  qed
qed

lemma round_float_exact:
  assumes k: "0 < k" "k \<le> 2 ^ 24" and q: "- 149 \<le> q"
  shows "round_float (of_int k * 2 powi q) = of_int k * 2 powi q"
proof -
  define y :: rat where "y = of_int k * 2 powi q"
  have y: "0 < y" unfolding y_def using k two_powi_pos [of q] by simp
  define u where "u = ulp_exponent y"
  have ry: "round_float y = of_int (rne (y / 2 powi u)) * 2 powi u"
    using y by (simp add: round_float_def u_def Let_def)
  have "\<exists>n. y / 2 powi u = of_int n"
  proof (cases "u \<le> q")
    case True
    then have "(2::rat) powi q = 2 powi u * 2 ^ nat (q - u)"
      using two_powi_add [of u "q - u"] by (simp add: power_int_def)
    then have "y / 2 powi u = of_int (k * 2 ^ nat (q - u))"
      unfolding y_def using two_powi_pos [of u] by simp
    then show ?thesis ..
  next
    case False
    then have uq: "q + 1 \<le> u" by simp
    with q have "- 149 < u" by simp
    then have "2 ^ 23 \<le> y / 2 powi u" unfolding u_def using y by (intro scaled_ge)
    then have "2 ^ 23 * 2 powi u \<le> y"
      using two_powi_pos [of u] by (simp add: pos_le_divide_eq)
    moreover have "2 ^ 23 * 2 powi (q + 1) \<le> 2 ^ 23 * (2::rat) powi u"
      using two_powi_le [OF uq] by simp
    moreover have "y \<le> 2 ^ 24 * 2 powi q"
    proof -
      have "(of_int k :: rat) \<le> of_int (2 ^ 24)" using k(2) by (simp only: of_int_le_iff)
      then show ?thesis unfolding y_def using two_powi_pos [of q] by (simp add: mult_right_mono)
    qed
    moreover have e: "2 ^ 23 * (2::rat) powi (q + 1) = 2 ^ 24 * 2 powi q"
      by (simp add: two_powi_add)
    ultimately have yv: "y = 2 ^ 24 * 2 powi q" and uv: "2 ^ 23 * 2 powi u = 2 ^ 23 * (2::rat) powi (q + 1)"
      by linarith+
    from uv have "(2::rat) powi u = 2 powi (q + 1)" by simp
    then have "y / 2 powi u = 2 ^ 24 * 2 powi q / (2 powi q * 2)"
      unfolding yv by (simp add: two_powi_add)
    also have "\<dots> = of_int (2 ^ 23)" using two_powi_pos [of q] by simp
    finally show ?thesis ..
  qed
  then obtain n where "y / 2 powi u = of_int n" ..
  then have "round_float y = y / 2 powi u * 2 powi u"
    unfolding ry by (simp only: rne_of_int)
  then show ?thesis unfolding y_def [symmetric] using two_powi_pos [of u] by simp
qed

lemma round_float_of_int:
  assumes "\<bar>n\<bar> \<le> 2 ^ 24"
  shows "round_float (of_int n) = of_int n"
proof -
  have pos: "round_float (of_int k) = of_int k" if "0 < k" "k \<le> 2 ^ 24" for k
    using round_float_exact [of k 0] that by simp
  consider "n = 0" | "0 < n" | "n < 0" by linarith
  then show ?thesis
  proof cases
    case 1
    then show ?thesis by (simp add: round_float_0)
  next
    case 2
    then show ?thesis using assms by (intro pos) simp_all
  next
    case 3
    then have "round_float (of_int (- n)) = of_int (- n)" using assms by (intro pos) simp_all
    then show ?thesis by (simp add: round_float_minus)
  qed
qed

lemma round_float_idem_pos:
  assumes "0 < x"
  shows "round_float (round_float x) = round_float x"
proof -
  define q where "q = ulp_exponent x"
  define k where "k = rne (x / 2 powi q)"
  have rx: "round_float x = of_int k * 2 powi q"
    using assms by (simp add: round_float_def q_def k_def Let_def)
  have q: "- 149 \<le> q" by (simp add: q_def ulp_exponent_def)
  have "0 \<le> x / 2 powi q" using assms two_powi_pos [of q] by simp
  then have k0: "0 \<le> k" unfolding k_def by (rule rne_nonneg)
  have "x / 2 powi q \<le> 2 ^ 24" unfolding q_def using scaled_less [OF assms] by simp
  then have "k \<le> rne (2 ^ 24)" unfolding k_def by (rule rne_mono)
  moreover have "rne (2 ^ 24) = 2 ^ 24" using rne_of_int [of "2 ^ 24"] by simp
  ultimately have k1: "k \<le> 2 ^ 24" by simp
  show ?thesis
  proof (cases "k = 0")
    case True
    then show ?thesis unfolding rx by (simp add: round_float_0)
  next
    case False
    with k0 have "0 < k" by simp
    then show ?thesis unfolding rx using k1 q by (rule round_float_exact)
  qed
qed

lemma round_float_idem: "round_float (round_float x) = round_float x"
proof -
  consider "x = 0" | "0 < x" | "x < 0" by linarith
  then show ?thesis
  proof cases
    case 1
    then show ?thesis by (simp add: round_float_0)
  next
    case 2
    then show ?thesis by (rule round_float_idem_pos)
  next
    case 3
    then have "round_float (round_float (- x)) = round_float (- x)"
      by (intro round_float_idem_pos) simp
    then show ?thesis by (simp add: round_float_minus)
  qed
qed

text \<open>The rounded value is a float, a significand of at most 24 bits times the unit in
  the last place, and no further from the exact value than half that unit.\<close>

lemma round_float_nearest:
  "\<bar>round_float x - x\<bar> \<le> 2 powi ulp_exponent x / 2"
proof (cases "x = 0")
  case True
  then show ?thesis using two_powi_pos [of "ulp_exponent 0"] by (simp add: round_float_0)
next
  case False
  define U :: rat where "U = 2 powi ulp_exponent x"
  have U: "0 < U" unfolding U_def by (rule two_powi_pos)
  define k where "k = rne (x / U)"
  have r: "round_float x = of_int k * U"
    using False by (simp add: round_float_def Let_def U_def k_def)
  from rne_bounds [of "x / U"] have "\<bar>of_int k - x / U\<bar> \<le> 1 / 2"
    unfolding k_def by linarith
  then have "\<bar>of_int k - x / U\<bar> * U \<le> 1 / 2 * U" using U by (simp add: mult_right_mono)
  moreover have "\<bar>of_int k - x / U\<bar> * U = \<bar>of_int k * U - x\<bar>"
  proof -
    have "\<bar>of_int k - x / U\<bar> * U = \<bar>(of_int k - x / U) * U\<bar>"
      using U by (simp add: abs_mult)
    also have "(of_int k - x / U) * U = of_int k * U - x" using U by (simp add: algebra_simps)
    finally show ?thesis .
  qed
  ultimately show ?thesis unfolding r U_def [symmetric] by simp
qed

lemma round_float_significand:
  "\<exists>k. round_float x = of_int k * 2 powi ulp_exponent x \<and> \<bar>k\<bar> \<le> 2 ^ 24"
proof -
  have pos: "\<exists>k. round_float y = of_int k * 2 powi ulp_exponent y \<and> \<bar>k\<bar> \<le> 2 ^ 24"
    if y: "0 < y" for y
  proof -
    define k where "k = rne (y / 2 powi ulp_exponent y)"
    have r: "round_float y = of_int k * 2 powi ulp_exponent y"
      using y by (simp add: round_float_def Let_def k_def)
    have "0 \<le> y / 2 powi ulp_exponent y" using y two_powi_pos [of "ulp_exponent y"] by simp
    then have k0: "0 \<le> k" unfolding k_def by (rule rne_nonneg)
    have "y / 2 powi ulp_exponent y \<le> 2 ^ 24" using scaled_less [OF y] by simp
    then have "k \<le> rne (2 ^ 24)" unfolding k_def by (rule rne_mono)
    moreover have "rne (2 ^ 24) = 2 ^ 24" using rne_of_int [of "2 ^ 24"] by simp
    ultimately have "\<bar>k\<bar> \<le> 2 ^ 24" using k0 by simp
    with r show ?thesis by blast
  qed
  consider "x = 0" | "0 < x" | "x < 0" by linarith
  then show ?thesis
  proof cases
    case 1
    then show ?thesis by (intro exI [of _ 0]) (simp add: round_float_0)
  next
    case 2
    then show ?thesis by (rule pos)
  next
    case 3
    then have "0 < - x" by simp
    from pos [OF this] obtain k where
      k: "round_float (- x) = of_int k * 2 powi ulp_exponent (- x)" "\<bar>k\<bar> \<le> 2 ^ 24" by blast
    then have "round_float x = of_int (- k) * 2 powi ulp_exponent x"
      by (simp add: round_float_minus ulp_exponent_minus)
    moreover have "\<bar>- k\<bar> \<le> 2 ^ 24" using k(2) by simp
    ultimately show ?thesis by blast
  qed
qed

lemma float_add_mono: "a \<le> a' \<Longrightarrow> b \<le> b' \<Longrightarrow> float_add a b \<le> float_add a' b'"
  unfolding float_add_def by (rule round_float_mono) simp

lemma float_add_ge_int:
  "\<bar>n\<bar> \<le> 2 ^ 24 \<Longrightarrow> of_int n \<le> a + b \<Longrightarrow> of_int n \<le> float_add a b"
  unfolding float_add_def using round_float_mono [of "of_int n" "a + b"]
  by (simp add: round_float_of_int)

lemma round_float_add: "round_float (float_add a b) = float_add a b"
  unfolding float_add_def by (rule round_float_idem)

text \<open>
  Sums and products that are not floats are rounded: \<open>599 + (1 - 2\<^sup>-\<^sup>2\<^sup>4)\<close> to 600,
  \<open>612 + 0.2f\<close> to 612.20001220703125, \<open>612 + (88 + 2\<^sup>-\<^sup>1\<^sup>7)\<close> to 700, and the hundredfold of
  600.22998046875, a tie, to the even neighbour 60023. Sums of whole minutes are exact.
\<close>

lemma float_rounding_examples:
  "float_add 599 (1 - 1 / 2 ^ 24) = 600"
  "float_add 630 (1 - 1 / 2 ^ 24) = 631"
  "round_float (1 / 5) = 13421773 / 67108864"
  "float_add 612 (13421773 / 67108864) = 10030285 / 16384"
  "float_add 612 (88 + 1 / 2 ^ 17) = 700"
  "float_mul (1229271 / 2048) 100 = 60023"
  "float_add 600 10 = 610" "float_add 630 7 = 637"
  by code_simp+

text \<open>
  The rounding decides results of the solver. In the first input the float arrival at
  Finish is 10:31, in the closed slot of 10:30, where the exact arrival is before 10:31,
  in the open slot of 10:00: no checkpoint is counted; and a float arrival of 600 from
  the state time 599 is not before the first slot start, where the exact arrival is. In
  the second input the float arrival at Finish is 700, the end time, where the exact
  arrival is after the end time: the state is recorded and the checkpoint is counted. In
  the third input the finish time is the float sum 612.20001220703125.
\<close>

lemma rounding_decides:
  "(630 :: rat) + (1 - 1 / 2 ^ 24) < 631"
  "arrival_to_slot_index (630 + (1 - 1 / 2 ^ 24)) round_slot_input = 0"
  "arrival_to_slot_index (float_add 630 (1 - 1 / 2 ^ 24)) round_slot_input = 1"
  "solve round_slot_input =
     Some \<lparr> count = 0, route = [], route_length = 0, finish_time = 0 \<rparr>"
  "(599 :: rat) + (1 - 1 / 2 ^ 24) < of_int (slot_starts round_slot_input 0)"
  "can_reach_finish 599 0 round_slot_input"
  "of_int (end_time round_end_input) < (612 :: rat) + (88 + 1 / 2 ^ 17)"
  "dp (dp_fill round_end_input) (idx (n_checkpoints round_end_input) 1 0) = 612"
  "can_reach_finish 612 0 round_end_input"
  "solve round_end_input =
     Some \<lparr> count = 1, route = [0], route_length = 1, finish_time = 700 \<rparr>"
  "solve fifth_input =
     Some \<lparr> count = 1, route = [0], route_length = 1, finish_time = 10030285 / 16384 \<rparr>"
  "valid_input round_slot_input" "valid_input round_end_input" "valid_input fifth_input"
  "valid_input product_input"
  by code_simp+

subsection \<open>Time-slot arithmetic\<close>

lemma slot_search_found:
  "s \<le> k \<Longrightarrow> k < n_slots inp \<Longrightarrow> slot_starts inp k = st \<Longrightarrow>
   (\<forall>j. s \<le> j \<and> j < k \<longrightarrow> slot_starts inp j \<noteq> st) \<Longrightarrow>
   slot_search inp st s = int k"
proof (induction inp st s rule: slot_search.induct)
  case (1 inp st s)
  show ?case
  proof (cases "s = k")
    case True
    with "1.prems" show ?thesis by (subst slot_search.simps) simp
  next
    case False
    with "1.prems" have lt: "s < k" and ne: "slot_starts inp s \<noteq> st" by auto
    have "slot_search inp st (Suc s) = int k"
      using "1.IH" "1.prems" lt ne by auto
    with lt ne "1.prems" show ?thesis by (subst slot_search.simps) simp
  qed
qed

lemma slot_search_none:
  "(\<forall>j. s \<le> j \<and> j < n_slots inp \<longrightarrow> slot_starts inp j \<noteq> st) \<Longrightarrow>
   slot_search inp st s = - 1"
proof (induction inp st s rule: slot_search.induct)
  case (1 inp st s)
  show ?case
  proof (cases "s < n_slots inp")
    case True
    with "1.prems" have ne: "slot_starts inp s \<noteq> st" by auto
    have "slot_search inp st (Suc s) = - 1" using "1.IH" True ne "1.prems" by auto
    with True ne show ?thesis by (subst slot_search.simps) simp
  next
    case False
    then show ?thesis by (subst slot_search.simps) simp
  qed
qed

lemma float_to_int_nonneg: "0 \<le> x \<Longrightarrow> float_to_int x = \<lfloor>x\<rfloor>"
  by (simp add: float_to_int_def)

lemma sdiv_nonneg: "0 \<le> (a::int) \<Longrightarrow> 0 < b \<Longrightarrow> a sdiv b = a div b"
  by (simp add: signed_divide_int_def sgn_if)

lemma smod_nonneg: "0 \<le> (a::int) \<Longrightarrow> 0 < b \<Longrightarrow> a smod b = a mod b"
  by (simp add: signed_modulo_int_def sgn_if)

lemma slot_time_eq_canonical:
  assumes "0 \<le> t"
  shows "(let whole = float_to_int t; h = whole sdiv 60; m = whole smod 60
          in h * 60 + (if m > 30 then 30 else 0)) = spec_canonical t"
proof -
  have "0 \<le> \<lfloor>t\<rfloor>" using assms by simp
  then show ?thesis
    using assms
    by (simp add: float_to_int_nonneg sdiv_nonneg smod_nonneg spec_canonical_def Let_def)
qed

lemma a2si_canonical:
  assumes "0 \<le> slot_starts inp 0"
  shows "arrival_to_slot_index t inp =
     (if t < of_int (slot_starts inp 0) then - 1
      else if spec_canonical t > slot_starts inp (n_slots inp - 1) then int (n_slots inp - 1)
      else slot_search inp (spec_canonical t) 0)"
proof (cases "t < of_int (slot_starts inp 0)")
  case True
  then show ?thesis by (simp add: arrival_to_slot_index_def)
next
  case False
  then have "0 \<le> t" using assms
    by (meson of_int_0_le_iff order_trans not_less)
  from slot_time_eq_canonical [OF this] False show ?thesis
    by (simp add: arrival_to_slot_index_def Let_def)
qed

text \<open>
  Claim C3, as the code has it. For a table of strictly increasing slot starts that are
  minutes past midnight (none negative), the slot index of an arrival time \<open>t\<close> is: none
  (\<open>-1\<close>) when \<open>t\<close> is before the first slot start; the last index when the canonical slot
  start \<open>60\<cdot>h + (30 if m > 30 else 0)\<close> of \<open>\<lfloor>t\<rfloor>\<close> exceeds the last slot start; otherwise
  the one index whose slot start is the canonical one when the table lists it, and none
  when the table does not list it. The fraction of \<open>t\<close> never changes the index.
\<close>

theorem arrival_to_slot_index_rule:
  assumes inc: "\<forall>a b. a < b \<and> b < n_slots inp \<longrightarrow> slot_starts inp a < slot_starts inp b"
    and nonneg: "0 \<le> slot_starts inp 0"
  shows "(t < of_int (slot_starts inp 0) \<longrightarrow> arrival_to_slot_index t inp = - 1) \<and>
         (of_int (slot_starts inp 0) \<le> t \<and>
          spec_canonical t > slot_starts inp (n_slots inp - 1) \<longrightarrow>
            arrival_to_slot_index t inp = int (n_slots inp - 1)) \<and>
         (of_int (slot_starts inp 0) \<le> t \<and>
          spec_canonical t \<le> slot_starts inp (n_slots inp - 1) \<longrightarrow>
            (\<forall>s. s < n_slots inp \<and> slot_starts inp s = spec_canonical t \<longrightarrow>
                 arrival_to_slot_index t inp = int s) \<and>
            ((\<forall>s. s < n_slots inp \<longrightarrow> slot_starts inp s \<noteq> spec_canonical t) \<longrightarrow>
                 arrival_to_slot_index t inp = - 1)) \<and>
         arrival_to_slot_index (of_int \<lfloor>t\<rfloor>) inp = arrival_to_slot_index t inp"
proof -
  have found: "slot_search inp (spec_canonical t) 0 = int s"
    if "s < n_slots inp" "slot_starts inp s = spec_canonical t" for s
  proof (rule slot_search_found)
    show "\<forall>j. 0 \<le> j \<and> j < s \<longrightarrow> slot_starts inp j \<noteq> spec_canonical t"
      using inc that by (metis less_irrefl)
  qed (use that in auto)
  have none: "slot_search inp (spec_canonical t) 0 = - 1"
    if "\<forall>s. s < n_slots inp \<longrightarrow> slot_starts inp s \<noteq> spec_canonical t"
    by (rule slot_search_none) (use that in auto)
  have fl: "spec_canonical (of_int \<lfloor>t\<rfloor>) = spec_canonical t"
    by (simp add: spec_canonical_def)
  have cmp: "(of_int \<lfloor>t\<rfloor> < (of_int (slot_starts inp 0) :: rat)) = (t < of_int (slot_starts inp 0))"
    by (simp add: floor_less_iff)
  have "arrival_to_slot_index (of_int \<lfloor>t\<rfloor>) inp = arrival_to_slot_index t inp"
    unfolding a2si_canonical [OF nonneg] fl cmp ..
  then show ?thesis
    using found none by (simp add: a2si_canonical [OF nonneg])
qed

theorem arrival_to_slot_index_rule_witness:
  "n_slots S3_input = 2 \<and> slot_starts S3_input 0 < slot_starts S3_input 1 \<and>
   0 \<le> slot_starts S3_input 0 \<and>
   arrival_to_slot_index 630 S3_input = 0 \<and> arrival_to_slot_index 631 S3_input = 1"
proof -
  have h1: "\<forall>a b. a < b \<and> b < n_slots S3_input \<longrightarrow> slot_starts S3_input a < slot_starts S3_input b"
    by (simp add: S3_input_def)
  have h2: "0 \<le> slot_starts S3_input 0"
    by (simp add: S3_input_def)
  have c30: "spec_canonical 630 = 600" and c31: "spec_canonical 631 = 630"
    by code_simp+
  have p30: "of_int (slot_starts S3_input 0) \<le> (630::rat) \<and>
             spec_canonical 630 \<le> slot_starts S3_input (n_slots S3_input - 1)"
    and q30: "0 < n_slots S3_input \<and> slot_starts S3_input 0 = spec_canonical 630"
    by (simp_all add: c30 S3_input_def)
  have p31: "of_int (slot_starts S3_input 0) \<le> (631::rat) \<and>
             spec_canonical 631 \<le> slot_starts S3_input (n_slots S3_input - 1)"
    and q31: "1 < n_slots S3_input \<and> slot_starts S3_input 1 = spec_canonical 631"
    by (simp_all add: c31 S3_input_def)
  have "arrival_to_slot_index 630 S3_input = int 0"
    using arrival_to_slot_index_rule [OF h1 h2, of 630] p30 q30 by blast
  moreover have "arrival_to_slot_index 631 S3_input = int 1"
    using arrival_to_slot_index_rule [OF h1 h2, of 631] p31 q31 by blast
  moreover have "n_slots S3_input = 2 \<and> slot_starts S3_input 0 < slot_starts S3_input 1"
    by (simp add: S3_input_def)
  ultimately show ?thesis using h2 by simp
qed

text \<open>
  The claim as the specification states it fails on a strictly increasing table that
  starts on a half hour. An arrival at 10:30 sharp is not before the first slot start; its
  canonical slot start is 10:00, which does not exceed the last slot start and is the
  start of no slot; the index is none.
\<close>

theorem arrival_to_slot_index_unlisted:
  "n_slots half_hour_input = 2 \<and>
   slot_starts half_hour_input 0 < slot_starts half_hour_input 1 \<and>
   \<not> 630 < (of_int (slot_starts half_hour_input 0) :: rat) \<and>
   \<not> spec_canonical 630 > slot_starts half_hour_input (n_slots half_hour_input - 1) \<and>
   slot_starts half_hour_input 0 \<noteq> spec_canonical 630 \<and>
   slot_starts half_hour_input 1 \<noteq> spec_canonical 630 \<and>
   arrival_to_slot_index 630 half_hour_input = - 1"
  by code_simp

subsection \<open>Feasibility oracle\<close>

lemma open_search_first:
  "k \<le> s \<Longrightarrow> s < n_slots inp \<Longrightarrow> open_at inp c s \<Longrightarrow>
   (\<forall>j. k \<le> j \<and> j < s \<longrightarrow> \<not> open_at inp c j) \<Longrightarrow>
   open_search inp c t k = max t (of_int (slot_starts inp s))"
proof (induction inp c t k rule: open_search.induct)
  case (1 inp c t k)
  show ?case
  proof (cases "k = s")
    case True
    with "1.prems" show ?thesis by (subst open_search.simps) (simp add: max_def)
  next
    case False
    with "1.prems" have lt: "k < s" and cl: "\<not> open_at inp c k" by auto
    have "open_search inp c t (Suc k) = max t (of_int (slot_starts inp s))"
      using "1.IH" "1.prems" lt cl by auto
    with lt cl "1.prems" show ?thesis by (subst open_search.simps) simp
  qed
qed

lemma open_search_none:
  "(\<forall>j. k \<le> j \<and> j < n_slots inp \<longrightarrow> \<not> open_at inp c j) \<Longrightarrow>
   open_search inp c t k = - 1"
proof (induction inp c t k rule: open_search.induct)
  case (1 inp c t k)
  show ?case
  proof (cases "k < n_slots inp")
    case True
    with "1.prems" have cl: "\<not> open_at inp c k" by auto
    have "open_search inp c t (Suc k) = - 1" using "1.IH" True cl "1.prems" by auto
    with True cl show ?thesis by (subst open_search.simps) simp
  next
    case False
    then show ?thesis by (subst open_search.simps) simp
  qed
qed

lemma fnot_scan_start:
  "find_next_open_time c t inp = open_search inp c t (scan_start t inp)"
  by (simp add: find_next_open_time_def scan_start_def Let_def)

lemma S3_values:
  "of_int (start_time S3_input) + travel_time S3_input START_IDX 0 = 610"
  "find_next_open_time 0 610 S3_input = 630"
  "630 + of_int (dwell S3_input) = (637::rat)"
  "float_add (of_int (start_time S3_input)) (travel_time S3_input START_IDX 0) = 610"
  "float_add 630 (of_int (dwell S3_input)) = 637"
  by code_simp+

text \<open>
  Claim C4. \<^verbatim>\<open>find_next_open_time\<close> scans the slot indices upward from the index of the
  arrival time, or from 0 when that index is none. It returns the later of the arrival
  time and the slot start of the first slot in which the checkpoint is open, and the
  infeasible value \<open>-1\<close> when the checkpoint is open in no slot from there on. In scenario
  S3 the arrival is at 610, the open time is 630 and the departure is 637, as exact sums
  and as the float sums of the solver.
\<close>

theorem find_next_open_time_scan:
  "(\<forall>s. scan_start t inp \<le> s \<and> s < n_slots inp \<and> open_at inp c s \<and>
        (\<forall>j. scan_start t inp \<le> j \<and> j < s \<longrightarrow> \<not> open_at inp c j) \<longrightarrow>
        find_next_open_time c t inp = max t (of_int (slot_starts inp s))) \<and>
   ((\<forall>s. scan_start t inp \<le> s \<and> s < n_slots inp \<longrightarrow> \<not> open_at inp c s) \<longrightarrow>
        find_next_open_time c t inp = - 1) \<and>
   of_int (start_time S3_input) + travel_time S3_input START_IDX 0 = 610 \<and>
   find_next_open_time 0 610 S3_input = 630 \<and>
   630 + of_int (dwell S3_input) = (637::rat) \<and>
   float_add (of_int (start_time S3_input)) (travel_time S3_input START_IDX 0) = 610 \<and>
   float_add 630 (of_int (dwell S3_input)) = 637"
  using open_search_first [of "scan_start t inp" _ inp c t]
    open_search_none [of "scan_start t inp" inp c t] S3_values
  by (simp add: fnot_scan_start)

theorem find_next_open_time_scan_witness:
  "scan_start 610 S3_input = 0 \<and> \<not> open_at S3_input 0 0 \<and> open_at S3_input 0 1 \<and>
   find_next_open_time 0 610 S3_input = max 610 (of_int (slot_starts S3_input 1)) \<and>
   scan_start 610 S1_input = 0 \<and> n_slots S1_input = 1 \<and> \<not> open_at S1_input 0 0 \<and>
   find_next_open_time 0 610 S1_input = - 1"
proof -
  have a: "scan_start 610 S3_input = 0" "\<not> open_at S3_input 0 0" "open_at S3_input 0 1"
    "n_slots S1_input = 1" "scan_start 610 S1_input = 0" "\<not> open_at S1_input 0 0"
    by code_simp+
  have b: "\<forall>j. scan_start 610 S3_input \<le> j \<and> j < 1 \<longrightarrow> \<not> open_at S3_input 0 j"
    using a by (auto simp: less_Suc_eq)
  have c: "\<forall>s. scan_start 610 S1_input \<le> s \<and> s < n_slots S1_input \<longrightarrow> \<not> open_at S1_input 0 s"
    using a by (auto simp: less_Suc_eq)
  have n2: "n_slots S3_input = 2" by code_simp
  have pre: "scan_start 610 S3_input \<le> 1 \<and> 1 < n_slots S3_input \<and> open_at S3_input 0 1 \<and>
        (\<forall>j. scan_start 610 S3_input \<le> j \<and> j < 1 \<longrightarrow> \<not> open_at S3_input 0 j)"
    using a b n2 by simp
  have "find_next_open_time 0 610 S3_input = max 610 (of_int (slot_starts S3_input 1))"
    using find_next_open_time_scan [of 610 S3_input 0, THEN conjunct1, THEN spec, of 1] pre
    by blast
  moreover have "find_next_open_time 0 610 S1_input = - 1"
    using find_next_open_time_scan [of 610 S1_input 0] c by blast
  ultimately show ?thesis using a by simp
qed

text \<open>
  Claim C10. When the arrival at Finish, the float sum of the state time and the travel
  time to Finish, is strictly before the first slot start, \<^verbatim>\<open>can_reach_finish\<close> answers
  no, whatever the Finish openings and the end time are;
  \<^verbatim>\<open>find_next_open_time\<close>, for an arrival before the first slot start at a checkpoint open
  in slot 0, waits until the first slot start.
\<close>

theorem can_reach_finish_early_arrival:
  "(float_add t (travel_time inp i FINISH_IDX) < of_int (slot_starts inp 0) \<longrightarrow>
      \<not> can_reach_finish t i inp) \<and>
   (t < of_int (slot_starts inp 0) \<and> 0 < n_slots inp \<and> open_at inp c 0 \<longrightarrow>
      find_next_open_time c t inp = of_int (slot_starts inp 0))"
proof -
  have "find_next_open_time c t inp = of_int (slot_starts inp 0)"
    if "t < of_int (slot_starts inp 0)" "0 < n_slots inp" "open_at inp c 0"
  proof -
    have "scan_start t inp = 0"
      using that by (simp add: scan_start_def arrival_to_slot_index_def)
    then show ?thesis
      using that open_search_first [of 0 0 inp c t] by (simp add: fnot_scan_start max_def)
  qed
  then show ?thesis
    by (auto simp: can_reach_finish_def arrival_to_slot_index_def Let_def)
qed

theorem can_reach_finish_early_arrival_witness:
  "float_add 590 (travel_time S2_input 0 FINISH_IDX) < of_int (slot_starts S2_input 0) \<and>
   finish_open S2_input 0 \<and> slot_starts S2_input 0 \<le> end_time S2_input \<and>
   \<not> can_reach_finish 590 0 S2_input \<and>
   (590::rat) < of_int (slot_starts S2_input 0) \<and> 0 < n_slots S2_input \<and> open_at S2_input 0 0 \<and>
   find_next_open_time 0 590 S2_input = of_int (slot_starts S2_input 0)"
proof -
  have a: "float_add 590 (travel_time S2_input 0 FINISH_IDX) < of_int (slot_starts S2_input 0)"
    "finish_open S2_input 0" "slot_starts S2_input 0 \<le> end_time S2_input"
    "(590::rat) < of_int (slot_starts S2_input 0)" "0 < n_slots S2_input" "open_at S2_input 0 0"
    by code_simp+
  show ?thesis
    using a can_reach_finish_early_arrival [of 590 S2_input 0 0] by blast
qed


subsection \<open>Masks, indices and the population count\<close>

lemma bit_test_nat: "((m::nat) AND push_bit j 1 \<noteq> 0) = bit m j"
  by (simp add: bit_iff_and_push_bit_not_eq_0)

lemma bit_mask_of: "bit (mask_of r) b \<longleftrightarrow> b \<in> set r"
  by (induction r) (auto simp: bit_or_iff bit_exp_iff)

lemma mask_of_snoc: "mask_of (r @ [j]) = mask_of r OR push_bit j 1"
  by (rule bit_eqI) (auto simp: bit_or_iff bit_exp_iff bit_mask_of)

lemma idx_inj:
  "i < N \<Longrightarrow> i' < N \<Longrightarrow> idx N m i = idx N m' i' \<longleftrightarrow> m = m' \<and> i = i'"
proof
  assume a: "i < N" "i' < N" "idx N m i = idx N m' i'"
  then have e: "m * N + i = m' * N + i'" by (simp add: idx_def)
  from a have "(m * N + i) div N = m" "(m' * N + i') div N = m'" by simp_all
  with e have "m = m'" by metis
  with e show "m = m' \<and> i = i'" by simp
qed simp

lemma pack_nonneg: "0 \<le> push_bit 5 (int m) OR int i"
  by simp

lemma canon_mono:
  assumes "(w1::int) \<le> w2"
  shows "60 * (w1 div 60) + (if w1 mod 60 > 30 then 30 else 0)
       \<le> 60 * (w2 div 60) + (if w2 mod 60 > 30 then 30 else 0)"
proof -
  have d: "w1 div 60 \<le> w2 div 60" using assms by (rule zdiv_mono1) simp
  have e1: "w1 = 60 * (w1 div 60) + w1 mod 60" and e2: "w2 = 60 * (w2 div 60) + w2 mod 60"
    by simp_all
  show ?thesis
  proof (cases "w1 div 60 = w2 div 60")
    case True
    with e1 e2 assms have "w1 mod 60 \<le> w2 mod 60" by linarith
    with True show ?thesis by simp
  next
    case False
    with d have "w1 div 60 + 1 \<le> w2 div 60" by simp
    then show ?thesis by (simp split: if_splits)
  qed
qed

lemma unpack_pos: "i < 32 \<Longrightarrow> (push_bit 5 (int m) OR int i) AND 31 = int i"
proof -
  assume a: "i < 32"
  have "take_bit 5 (push_bit 5 (int m) OR int i) = int i"
    using a by (simp add: take_bit_or take_bit_push_bit take_bit_int_eq_self)
  then show ?thesis by (simp add: take_bit_eq_mask mask_eq_exp_minus_1)
qed

lemma unpack_mask: "i < 32 \<Longrightarrow> drop_bit 5 (push_bit 5 (int m) OR int i) = int m"
proof -
  assume a: "i < 32"
  have "drop_bit 5 (int i) = 0"
    using a by (simp add: drop_bit_eq_div)
  then show ?thesis by (simp add: drop_bit_or) (simp add: drop_bit_eq_div push_bit_eq_mult)
qed

lemma finite_bits_nat: "finite {b. bit (m::nat) b}"
proof (rule finite_subset)
  show "{b. bit m b} \<subseteq> {..m}"
  proof
    fix b assume "b \<in> {b. bit m b}"
    then have "odd (m div 2 ^ b)" by (simp add: bit_nat_def)
    then have "m div 2 ^ b \<noteq> 0" by (auto intro: ccontr)
    then have "2 ^ b \<le> m" by (simp add: div_eq_0_iff not_less) 
    moreover have "b < 2 ^ b" by simp
    ultimately have "b \<le> m" by linarith
    then show "b \<in> {..m}" by simp
  qed
qed simp

lemma bits_step:
  "{b. bit (x::nat) b} = (if odd x then {0} else {}) \<union> Suc ` {b. bit (x div 2) b}"
proof -
  have "bit x b \<longleftrightarrow> (b = 0 \<and> odd x) \<or> (\<exists>c. b = Suc c \<and> bit (x div 2) c)" for b
    by (cases b) (simp_all add: bit_0 bit_Suc)
  then show ?thesis by (auto simp: image_iff)
qed

lemma card_bits_step:
  "card {b. bit (x::nat) b} = x mod 2 + card {b. bit (x div 2) b}"
proof -
  have f: "finite (Suc ` {b. bit (x div 2) b})" using finite_bits_nat by simp
  have c: "card (Suc ` {b. bit (x div 2) b}) = card {b. bit (x div 2) b}"
    by (simp add: card_image)
  show ?thesis
  proof (cases "odd x")
    case True
    then have "x mod 2 = 1" by (simp add: odd_iff_mod_2_eq_one)
    with True f c show ?thesis by (subst bits_step) auto
  next
    case False
    then have "x mod 2 = 0" by simp
    with False c show ?thesis by (subst bits_step) simp
  qed
qed

lemma popcount_loop_card: "popcount_loop x c = c + card {b. bit x b}"
proof (induction x c rule: popcount_loop.induct)
  case (1 x c)
  show ?case
  proof (cases "x = 0")
    case True
    have "{b. bit (0::nat) b} = {}" by auto
    then have "card {b. bit (0::nat) b} = 0" by (simp only: card.empty)
    moreover have "popcount_loop x c = c" using True by (subst popcount_loop.simps) simp
    ultimately show ?thesis using True by (simp only: add_0_right)
  next
    case False
    have "popcount_loop x c = popcount_loop (drop_bit 1 x) (c + (x AND 1))"
      using False by (subst popcount_loop.simps) simp
    also have "\<dots> = c + (x AND 1) + card {b. bit (drop_bit 1 x) b}"
      using "1.IH" False by simp
    also have "\<dots> = c + card {b. bit x b}"
      by (simp add: card_bits_step [of x] drop_bit_eq_div and_one_eq)
    finally show ?thesis .
  qed
qed

lemma popcount_card: "popcount x = card {b. bit x b}"
  by (simp add: popcount_def popcount_loop_card)




subsection \<open>The invariant of the fill\<close>

text \<open>A loop over a list keeps what every pass of its body keeps.\<close>

lemma fold_invariant:
  assumes start: "P st0"
    and body: "\<And>j st. j \<in> set js \<Longrightarrow> P st \<Longrightarrow> P (body j st)"
  shows "P (fold body js st0)"
  using assms by (induction js arbitrary: st0) auto

lemma init_step_serve:
  "init_step inp j st =
     (case serve inp (float_add (of_int (start_time inp)) (travel_time inp START_IDX j)) j of
        None \<Rightarrow> st
      | Some d \<Rightarrow>
          if d < dp st (idx (n_checkpoints inp) (push_bit j 1) j)
          then st\<lparr> dp := (dp st)(idx (n_checkpoints inp) (push_bit j 1) j := d),
                   parent := (parent st)(idx (n_checkpoints inp) (push_bit j 1) j := - 1) \<rparr>
          else st)"
  by (simp add: init_step_def serve_def Let_def)

lemma extend_step_serve:
  "extend_step inp pc msk i depart_i j st =
     (if bit msk j then st
      else if float_add depart_i (travel_time inp i j) > of_int (end_time inp) then st
      else case serve inp (float_add depart_i (travel_time inp i j)) j of
        None \<Rightarrow> st
      | Some d \<Rightarrow>
          if d < dp st (idx (n_checkpoints inp) (msk OR push_bit j 1) j)
          then st\<lparr> dp := (dp st)(idx (n_checkpoints inp) (msk OR push_bit j 1) j := d),
                   parent := (parent st)(idx (n_checkpoints inp) (msk OR push_bit j 1) j :=
                                push_bit 5 (int msk) OR int i),
                   masks_by_pc := (masks_by_pc st)
                                (pc + 1 := masks_by_pc st (pc + 1) @ [msk OR push_bit j 1]) \<rparr>
          else st)"
  by (simp add: extend_step_def serve_def Let_def bit_iff_and_push_bit_not_eq_0)

lemma bit_test_nat_pos: "(0 < (m::nat) AND 2 ^ j) = bit m j"
  using bit_test_nat [of m j] by simp

lemma bit_test_nat_zero: "((m::nat) AND 2 ^ j = 0) = (\<not> bit m j)"
  using bit_test_nat_pos [of m j] by auto

lemma dp_inv_update:
  assumes inv: "dp_inv inp st"
    and j: "j < n_checkpoints inp"
    and d: "d < dp st (idx (n_checkpoints inp) m j)"
    and r: "solver_route inp r d" "mask_of r = m" "last r = j"
    and p: "p = - 1 \<and> m = push_bit j 1 \<or>
         (\<exists>m' i'. p = push_bit 5 (int m') OR int i' \<and>
             i' < n_checkpoints inp \<and> \<not> bit m' j \<and> m = m' OR push_bit j 1 \<and>
             dp st (idx (n_checkpoints inp) m' i') < INF_TIME)"
  shows "dp_inv inp (st\<lparr> dp := (dp st)(idx (n_checkpoints inp) m j := d),
                          parent := (parent st)(idx (n_checkpoints inp) m j := p),
                          masks_by_pc := b \<rparr>)"
proof -
  let ?N = "n_checkpoints inp"
  let ?si = "idx ?N m j"
  let ?st = "st\<lparr> dp := (dp st)(?si := d), parent := (parent st)(?si := p), masks_by_pc := b \<rparr>"
  have le: "\<forall>z. dp st z \<le> INF_TIME" using inv by (simp add: dp_inv_def)
  have dlt: "d < INF_TIME" using d le [rule_format, of ?si] by simp
  have dec: "dp ?st z \<le> dp st z" for z using d by simp
  have keep: "dp ?st z < INF_TIME" if "dp st z < INF_TIME" for z
    using dec [of z] that by simp
  have one: "\<forall>z. dp ?st z \<le> INF_TIME"
    using le dlt by simp
  have two: "(\<exists>r. solver_route inp r (dp ?st (idx ?N msk i)) \<and> mask_of r = msk \<and> last r = i) \<and>
        (parent ?st (idx ?N msk i) = - 1 \<and> msk = push_bit i 1 \<or>
         (\<exists>m' i'. parent ?st (idx ?N msk i) = push_bit 5 (int m') OR int i' \<and>
             i' < ?N \<and> \<not> bit m' i \<and> msk = m' OR push_bit i 1 \<and>
             dp ?st (idx ?N m' i') < INF_TIME))"
    if i: "i < ?N" and lt: "dp ?st (idx ?N msk i) < INF_TIME" for msk i
  proof (cases "idx ?N msk i = ?si")
    case True
    then have eq: "msk = m" "i = j" using i j by (simp_all add: idx_inj)
    have a: "dp ?st (idx ?N msk i) = d" "parent ?st (idx ?N msk i) = p" using True by simp_all
    from p have "p = - 1 \<and> m = push_bit j 1 \<or>
         (\<exists>m' i'. p = push_bit 5 (int m') OR int i' \<and>
             i' < ?N \<and> \<not> bit m' j \<and> m = m' OR push_bit j 1 \<and>
             dp ?st (idx ?N m' i') < INF_TIME)"
      using keep by blast
    then show ?thesis unfolding a unfolding eq using r by blast
  next
    case False
    then have a: "dp ?st (idx ?N msk i) = dp st (idx ?N msk i)"
      "parent ?st (idx ?N msk i) = parent st (idx ?N msk i)" by simp_all
    from lt a have "dp st (idx ?N msk i) < INF_TIME" by simp
    with inv i have old: "(\<exists>r. solver_route inp r (dp st (idx ?N msk i)) \<and> mask_of r = msk \<and> last r = i) \<and>
        (parent st (idx ?N msk i) = - 1 \<and> msk = push_bit i 1 \<or>
         (\<exists>m' i'. parent st (idx ?N msk i) = push_bit 5 (int m') OR int i' \<and>
             i' < ?N \<and> \<not> bit m' i \<and> msk = m' OR push_bit i 1 \<and>
             dp st (idx ?N m' i') < INF_TIME))"
      unfolding dp_inv_def by blast
    then show ?thesis unfolding a using keep by blast
  qed
  show ?thesis unfolding dp_inv_def using one two by blast
qed

lemma dp_inv_initial: "dp_inv inp initial_state"
  by (simp add: dp_inv_def initial_state_def)

lemma dp_inv_buckets:
  "dp_inv inp st \<Longrightarrow> dp_inv inp (st\<lparr> masks_by_pc := b \<rparr>)"
  by (simp add: dp_inv_def)

lemma dp_inv_init_step:
  assumes "dp_inv inp st" "j < n_checkpoints inp"
  shows "dp_inv inp (init_step inp j st)"
proof (cases "serve inp (float_add (of_int (start_time inp)) (travel_time inp START_IDX j)) j")
  case None
  then show ?thesis using assms by (simp add: init_step_serve)
next
  case (Some d)
  show ?thesis
  proof (cases "d < dp st (idx (n_checkpoints inp) (push_bit j 1) j)")
    case True
    have r: "solver_route inp [j] d" using assms Some by (rule_tac solver_route.first)
    have "dp_inv inp (st\<lparr> dp := (dp st)(idx (n_checkpoints inp) (push_bit j 1) j := d),
                          parent := (parent st)(idx (n_checkpoints inp) (push_bit j 1) j := - 1),
                          masks_by_pc := masks_by_pc st \<rparr>)"
      by (rule dp_inv_update [OF assms True r]) simp_all
    then show ?thesis using Some True by (simp add: init_step_serve)
  next
    case False
    then show ?thesis using assms Some by (simp add: init_step_serve)
  qed
qed

lemma dp_inv_bucket_step: "dp_inv inp st \<Longrightarrow> dp_inv inp (bucket_step inp j st)"
  by (simp add: bucket_step_def Let_def dp_inv_buckets)

lemma dp_inv_dedup: "dp_inv inp st \<Longrightarrow> dp_inv inp (dedup_bucket k st)"
  by (simp add: dedup_bucket_def dp_inv_buckets)

lemma extend_step_dp_le: "dp (extend_step inp pc msk i depart_i j st) z \<le> dp st z"
  by (simp add: extend_step_serve split: option.splits)

lemma dp_inv_extend_step:
  assumes inv: "dp_inv inp st"
    and ij: "i < n_checkpoints inp" "j < n_checkpoints inp"
    and r: "solver_route inp r depart_i" "mask_of r = msk" "last r = i"
    and lt: "dp st (idx (n_checkpoints inp) msk i) < INF_TIME"
  shows "dp_inv inp (extend_step inp pc msk i depart_i j st)"
proof -
  let ?N = "n_checkpoints inp"
  let ?nm = "msk OR push_bit j 1"
  show ?thesis
  proof (cases "\<not> bit msk j \<and> \<not> float_add depart_i (travel_time inp i j) > of_int (end_time inp)")
    case False
    then show ?thesis using inv by (auto simp: extend_step_serve)
  next
    case g: True
    show ?thesis
    proof (cases "serve inp (float_add depart_i (travel_time inp i j)) j")
      case None
      then show ?thesis using inv g by (simp add: extend_step_serve)
    next
      case (Some d)
      show ?thesis
      proof (cases "d < dp st (idx ?N ?nm j)")
        case False
        then show ?thesis using inv g Some by (simp add: extend_step_serve)
      next
        case True
        have nin: "j \<notin> set r" using g r(2) by (auto simp: bit_mask_of [symmetric])
        have r': "solver_route inp (r @ [j]) d"
          using r(1) ij(2) nin g Some unfolding r(3) [symmetric]
          by (rule_tac solver_route.extend) auto
        have m': "mask_of (r @ [j]) = ?nm" using r(2) by (simp add: mask_of_snoc)
        have "dp_inv inp (st\<lparr> dp := (dp st)(idx ?N ?nm j := d),
                          parent := (parent st)(idx ?N ?nm j := push_bit 5 (int msk) OR int i),
                          masks_by_pc := (masks_by_pc st)
                                (pc + 1 := masks_by_pc st (pc + 1) @ [?nm]) \<rparr>)"
        proof (rule dp_inv_update [OF inv ij(2) True r' m'])
          show "last (r @ [j]) = j" by simp
          show "push_bit 5 (int msk) OR int i = - 1 \<and> ?nm = push_bit j 1 \<or>
            (\<exists>m' i'. push_bit 5 (int msk) OR int i = push_bit 5 (int m') OR int i' \<and>
              i' < ?N \<and> \<not> bit m' j \<and> ?nm = m' OR push_bit j 1 \<and> dp st (idx ?N m' i') < INF_TIME)"
            using g ij lt by blast
        qed
        then show ?thesis using g Some True by (simp add: extend_step_serve)
      qed
    qed
  qed
qed

lemma dp_inv_process_pos:
  assumes inv: "dp_inv inp st" and i: "i < n_checkpoints inp"
  shows "dp_inv inp (process_pos inp pc msk i st)"
proof (cases "bit msk i \<and> dp st (idx (n_checkpoints inp) msk i) < INF_TIME")
  case False
  then show ?thesis using inv by (auto simp: process_pos_def bit_test_nat_pos bit_test_nat_zero Let_def)
next
  case True
  let ?si = "idx (n_checkpoints inp) msk i"
  from inv i True obtain r where r: "solver_route inp r (dp st ?si)" "mask_of r = msk" "last r = i"
    unfolding dp_inv_def by blast
  let ?P = "\<lambda>s. dp_inv inp s \<and> dp s ?si < INF_TIME"
  have "?P (fold (extend_step inp pc msk i (dp st ?si)) [0..<n_checkpoints inp] st)"
  proof (rule fold_invariant)
    show "?P st" using inv True by simp
  next
    fix j s assume j: "j \<in> set [0..<n_checkpoints inp]" and P: "?P s"
    have "dp_inv inp (extend_step inp pc msk i (dp st ?si) j s)"
      using P i j r by (intro dp_inv_extend_step) auto
    moreover have "dp (extend_step inp pc msk i (dp st ?si) j s) ?si < INF_TIME"
      using extend_step_dp_le [of inp pc msk i "dp st ?si" j s ?si] P by simp
    ultimately show "?P (extend_step inp pc msk i (dp st ?si) j s)" by simp
  qed
  then show ?thesis using True by (simp add: process_pos_def bit_test_nat_pos bit_test_nat_zero Let_def)
qed

lemma dp_inv_process_mask:
  "dp_inv inp st \<Longrightarrow> dp_inv inp (process_mask inp pc msk st)"
  unfolding process_mask_def
  by (rule fold_invariant) (auto intro: dp_inv_process_pos)

lemma dp_inv_round: "dp_inv inp st \<Longrightarrow> dp_inv inp (dp_round inp pc st)"
proof -
  assume a: "dp_inv inp st"
  have "dp_inv inp (fold (process_mask inp pc) (masks_by_pc st pc) st)"
    by (rule fold_invariant) (auto intro: a dp_inv_process_mask)
  then show ?thesis by (simp add: dp_round_def Let_def dp_inv_dedup)
qed

lemma dp_inv_fill: "dp_inv inp (dp_fill inp)"
proof -
  let ?N = "n_checkpoints inp"
  have 1: "dp_inv inp (fold (init_step inp) [0..<?N] initial_state)"
    by (rule fold_invariant) (auto intro: dp_inv_initial dp_inv_init_step)
  have 2: "dp_inv inp (fold (bucket_step inp) [0..<?N] (fold (init_step inp) [0..<?N] initial_state))"
    by (rule fold_invariant) (auto intro: 1 dp_inv_bucket_step)
  have 3: "dp_inv inp (fold (dp_round inp) [1..<?N]
      (dedup_bucket 1 (fold (bucket_step inp) [0..<?N] (fold (init_step inp) [0..<?N] initial_state))))"
    by (rule fold_invariant) (auto intro: 2 dp_inv_dedup dp_inv_round)
  then show ?thesis by (simp add: dp_fill_def Let_def)
qed

lemma solver_route_checks:
  "solver_route inp r d \<Longrightarrow>
     d \<le> of_int (end_time inp) \<and> can_reach_finish d (last r) inp"
  by (induction rule: solver_route.induct)
     (auto simp: serve_def Let_def split: if_splits)


lemma finish_search_true:
  "finish_search inp fa k \<Longrightarrow>
   \<exists>s. k \<le> s \<and> s < n_slots inp \<and> finish_open inp s \<and>
       max fa (of_int (slot_starts inp s)) \<le> of_int (end_time inp)"
proof (induction inp fa k rule: finish_search.induct)
  case (1 inp fa k)
  from "1.prems" have lt: "k < n_slots inp"
    by (subst (asm) finish_search.simps) (simp split: if_splits)
  show ?case
  proof (cases "finish_open inp k \<and> max fa (of_int (slot_starts inp k)) \<le> of_int (end_time inp)")
    case True
    with lt show ?thesis by blast
  next
    case False
    then have f: "\<not> (finish_open inp k \<and>
               (if fa > of_int (slot_starts inp k)
                then fa else of_int (slot_starts inp k)) \<le> of_int (end_time inp))"
      by (auto simp: max_def split: if_splits)
    with "1.prems" lt have "finish_search inp fa (Suc k)"
      by (subst (asm) finish_search.simps) (simp split: if_splits)
    with "1.IH" lt f obtain s where "Suc k \<le> s" "s < n_slots inp" "finish_open inp s"
      "max fa (of_int (slot_starts inp s)) \<le> of_int (end_time inp)" by blast
    then show ?thesis by (intro exI [of _ s]) simp
  qed
qed

lemma can_reach_finish_slot:
  "can_reach_finish t i inp \<Longrightarrow>
   \<exists>s. s < n_slots inp \<and> finish_open inp s \<and>
       max (float_add t (travel_time inp i FINISH_IDX)) (of_int (slot_starts inp s)) \<le> of_int (end_time inp)"
  unfolding can_reach_finish_def Let_def
  by (auto split: if_splits dest!: finish_search_true)

text \<open>
  Claim C5. After the fill, every entry of \<^verbatim>\<open>dp\<close> below the solver's infinity, at a mask
  and a last checkpoint \<open>i\<close>, passes \<^verbatim>\<open>can_reach_finish\<close> from \<open>i\<close> at that departure time:
  some Finish slot is open and the later of the Finish arrival, which is the float sum of
  the entry and the travel time to Finish, and its slot start is not after the end time.
  The entry itself is not after the end time. The same invariant holds after every step
  of the initialisation and of the transitions (the lemmas above). In the example the
  entry of the mask of checkpoints 0 and 1 with last checkpoint 1 was written by a
  transition from the entry of checkpoint 0; no entry is written for checkpoint 2, from
  which Finish cannot be reached.
\<close>

theorem dp_fill_invariant:
  "i < n_checkpoints inp \<Longrightarrow>
   dp (dp_fill inp) (idx (n_checkpoints inp) msk i) < INF_TIME \<Longrightarrow>
   can_reach_finish (dp (dp_fill inp) (idx (n_checkpoints inp) msk i)) i inp \<and>
   (\<exists>s. s < n_slots inp \<and> finish_open inp s \<and>
       max (float_add (dp (dp_fill inp) (idx (n_checkpoints inp) msk i)) (travel_time inp i FINISH_IDX))
           (of_int (slot_starts inp s)) \<le> of_int (end_time inp)) \<and>
   dp (dp_fill inp) (idx (n_checkpoints inp) msk i) \<le> of_int (end_time inp)"
  using dp_inv_fill [of inp] solver_route_checks can_reach_finish_slot
  unfolding dp_inv_def by blast

theorem dp_fill_invariant_witness:
  "1 < n_checkpoints detour_input \<and> idx (n_checkpoints detour_input) 3 1 = 10 \<and>
   dp (dp_fill detour_input) 10 = 634 \<and>
   parent (dp_fill detour_input) 10 = push_bit 5 1 OR 0 \<and>
   can_reach_finish 634 1 detour_input \<and>
   float_add 634 (travel_time detour_input 1 FINISH_IDX) = 635 \<and>
   (634::rat) \<le> of_int (end_time detour_input) \<and>
   dp (dp_fill detour_input) (idx (n_checkpoints detour_input) 4 2) = INF_TIME \<and>
   \<not> can_reach_finish 608 2 detour_input"
proof -
  have a: "1 < n_checkpoints detour_input"
    "dp (dp_fill detour_input) (idx (n_checkpoints detour_input) 3 1) < INF_TIME"
    and b: "idx (n_checkpoints detour_input) 3 1 = 10"
    "dp (dp_fill detour_input) 10 = 634"
    "parent (dp_fill detour_input) 10 = push_bit 5 1 OR 0"
    "float_add 634 (travel_time detour_input 1 FINISH_IDX) = 635"
    "dp (dp_fill detour_input) (idx (n_checkpoints detour_input) 4 2) = INF_TIME"
    "\<not> can_reach_finish 608 2 detour_input"
    by code_simp+
  from dp_fill_invariant [OF a] a b show ?thesis by simp
qed


subsection \<open>The final scan\<close>

lemma scan_pos_alt:
  "scan_pos inp dpv msk cnt i b =
     (if dpv (idx (n_checkpoints inp) msk i) \<ge> INF_TIME then b
      else case finish_arrival inp (dpv (idx (n_checkpoints inp) msk i)) i of
        None \<Rightarrow> b
      | Some af \<Rightarrow>
          if cnt > best_count b \<or> (cnt = best_count b \<and> af < best_finish_time b)
          then \<lparr> best_count = cnt, best_finish_time = af,
                 best_mask = int msk, best_last = int i \<rparr>
          else b)"
  by (simp add: scan_pos_def finish_arrival_def Let_def)

lemma fold_set_invariant:
  "I V b \<Longrightarrow> (\<And>x V b. x \<in> set xs \<Longrightarrow> I V b \<Longrightarrow> I (V \<union> S x) (f x b)) \<Longrightarrow>
   I (V \<union> (\<Union>x\<in>set xs. S x)) (fold f xs b)"
proof (induction xs arbitrary: V b)
  case Nil
  then show ?case by simp
next
  case (Cons x xs)
  have "I (V \<union> S x) (f x b)" using Cons.prems by simp
  then have "I ((V \<union> S x) \<union> (\<Union>y\<in>set xs. S y)) (fold f xs (f x b))"
    using Cons.prems(2) by (intro Cons.IH) auto
  moreover have "(V \<union> S x) \<union> (\<Union>y\<in>set xs. S y) = V \<union> (\<Union>y\<in>set (x # xs). S y)" by auto
  ultimately show ?case by simp
qed

lemma best_inv_scan_pos:
  assumes "best_inv inp dpv V b" "i < n_checkpoints inp"
  shows "best_inv inp dpv (insert (m, i) V) (scan_pos inp dpv m (int (popcount m)) i b)"
proof -
  let ?N = "n_checkpoints inp"
  have old: "\<And>m' i' af. (m', i') \<in> V \<Longrightarrow> candidate inp dpv m' i' af \<Longrightarrow>
        int (popcount m') < best_count b \<or>
        (int (popcount m') = best_count b \<and> best_finish_time b \<le> af)"
    and ach: "best_count b = - 1 \<or>
      (\<exists>m' i'. (m', i') \<in> V \<and> candidate inp dpv m' i' (best_finish_time b) \<and>
         best_mask b = int m' \<and> best_last b = int i' \<and> best_count b = int (popcount m'))"
    using assms(1) unfolding best_inv_def by blast+
  show ?thesis
  proof (cases "\<exists>af. candidate inp dpv m i af")
    case False
    then have "scan_pos inp dpv m (int (popcount m)) i b = b"
      using assms(2) by (auto simp: scan_pos_alt candidate_def split: option.splits)
    moreover have "best_inv inp dpv (insert (m, i) V) b"
      unfolding best_inv_def using old ach False by auto
    ultimately show ?thesis by simp
  next
    case True
    then obtain af where c: "candidate inp dpv m i af" by blast
    then have fa: "\<not> dpv (idx ?N m i) \<ge> INF_TIME"
      "finish_arrival inp (dpv (idx ?N m i)) i = Some af"
      by (simp_all add: candidate_def)
    have uniq: "af' = af" if "candidate inp dpv m i af'" for af'
      using that fa by (simp add: candidate_def)
    show ?thesis
    proof (cases "int (popcount m) > best_count b \<or>
                  (int (popcount m) = best_count b \<and> af < best_finish_time b)")
      case w: True
      then have e: "scan_pos inp dpv m (int (popcount m)) i b =
          \<lparr> best_count = int (popcount m), best_finish_time = af,
            best_mask = int m, best_last = int i \<rparr>"
        using fa by (simp add: scan_pos_alt)
      show ?thesis unfolding e best_inv_def
      proof (intro conjI allI impI)
        fix m' i' af'
        assume "(m', i') \<in> insert (m, i) V" "candidate inp dpv m' i' af'"
        then show "int (popcount m') < best_count \<lparr> best_count = int (popcount m), best_finish_time = af,
            best_mask = int m, best_last = int i \<rparr> \<or>
          int (popcount m') = best_count \<lparr> best_count = int (popcount m), best_finish_time = af,
            best_mask = int m, best_last = int i \<rparr> \<and>
          best_finish_time \<lparr> best_count = int (popcount m), best_finish_time = af,
            best_mask = int m, best_last = int i \<rparr> \<le> af'"
          using old [of m' i' af'] uniq [of af'] w by auto
      next
        show "best_count \<lparr> best_count = int (popcount m), best_finish_time = af,
            best_mask = int m, best_last = int i \<rparr> = - 1 \<or>
          (\<exists>m' i'. (m', i') \<in> insert (m, i) V \<and>
            candidate inp dpv m' i' (best_finish_time \<lparr> best_count = int (popcount m), best_finish_time = af,
            best_mask = int m, best_last = int i \<rparr>) \<and>
            best_mask \<lparr> best_count = int (popcount m), best_finish_time = af,
            best_mask = int m, best_last = int i \<rparr> = int m' \<and>
            best_last \<lparr> best_count = int (popcount m), best_finish_time = af,
            best_mask = int m, best_last = int i \<rparr> = int i' \<and>
            best_count \<lparr> best_count = int (popcount m), best_finish_time = af,
            best_mask = int m, best_last = int i \<rparr> = int (popcount m'))"
          using c by auto
      qed
    next
      case l: False
      then have e: "scan_pos inp dpv m (int (popcount m)) i b = b"
        using fa by (auto simp: scan_pos_alt)
      have "best_inv inp dpv (insert (m, i) V) b"
        unfolding best_inv_def
      proof (intro conjI allI impI)
        fix m' i' af'
        assume "(m', i') \<in> insert (m, i) V" "candidate inp dpv m' i' af'"
        then show "int (popcount m') < best_count b \<or>
          int (popcount m') = best_count b \<and> best_finish_time b \<le> af'"
          using old [of m' i' af'] uniq [of af'] l by auto
      next
        show "best_count b = - 1 \<or>
          (\<exists>m' i'. (m', i') \<in> insert (m, i) V \<and> candidate inp dpv m' i' (best_finish_time b) \<and>
            best_mask b = int m' \<and> best_last b = int i' \<and> best_count b = int (popcount m'))"
          using ach by auto
      qed
      then show ?thesis using e by simp
    qed
  qed
qed

lemma best_inv_scan_mask:
  assumes "best_inv inp dpv V b"
  shows "best_inv inp dpv (V \<union> {m} \<times> {0..<n_checkpoints inp}) (scan_mask inp dpv m b)"
proof -
  have "best_inv inp dpv (V \<union> (\<Union>i\<in>set [0..<n_checkpoints inp]. {(m, i)}))
          (fold (scan_pos inp dpv m (int (popcount m))) [0..<n_checkpoints inp] b)"
    by (rule fold_set_invariant [where I = "best_inv inp dpv"])
       (use assms in \<open>simp_all add: best_inv_scan_pos\<close>)
  moreover have "(\<Union>i\<in>set [0..<n_checkpoints inp]. {(m, i)}) = {m} \<times> {0..<n_checkpoints inp}"
    by auto
  ultimately show ?thesis by (simp add: scan_mask_def Let_def)
qed

lemma best_inv_find_best:
  "best_inv inp dpv ({1..<2 ^ n_checkpoints inp} \<times> {0..<n_checkpoints inp}) (find_best inp dpv)"
proof -
  have i: "best_inv inp dpv {} initial_best"
    by (simp add: best_inv_def initial_best_def)
  have "best_inv inp dpv ({} \<union> (\<Union>m\<in>set [1..<push_bit (n_checkpoints inp) 1].
            {m} \<times> {0..<n_checkpoints inp}))
          (fold (scan_mask inp dpv) [1..<push_bit (n_checkpoints inp) 1] initial_best)"
    by (rule fold_set_invariant [where I = "best_inv inp dpv"])
       (use i in \<open>auto intro: best_inv_scan_mask\<close>)
  moreover have "(\<Union>m\<in>set [1..<push_bit (n_checkpoints inp) 1]. {m} \<times> {0..<n_checkpoints inp})
      = {1..<2 ^ n_checkpoints inp} \<times> {0..<n_checkpoints inp}"
    by (auto simp: push_bit_eq_mult)
  ultimately show ?thesis by (simp add: find_best_def)
qed

subsection \<open>Reconstruction\<close>

lemma solver_route_wf:
  "solver_route inp r d \<Longrightarrow> r \<noteq> [] \<and> distinct r \<and> (\<forall>c\<in>set r. c < n_checkpoints inp)"
  by (induction rule: solver_route.induct) auto

lemma bits_mask_of: "{b. bit (mask_of r) b} = set r"
  by (auto simp: bit_mask_of)

lemma card_bits_mask_of: "distinct r \<Longrightarrow> card {b. bit (mask_of r) b} = length r"
  by (simp add: bits_mask_of distinct_card)

lemma bits_add:
  "\<not> bit (m::nat) i \<Longrightarrow> {b. bit (m OR push_bit i 1) b} = insert i {b. bit m b}"
  by (auto simp: bit_or_iff bit_exp_iff)

lemma bits_single: "{b. bit (push_bit i (1::nat)) b} = {i}"
  by (auto simp: bit_exp_iff)

lemma reconstruct_ok:
  assumes inv: "dp_inv inp st" and N: "n_checkpoints inp \<le> MAX_CP"
  shows "i < n_checkpoints inp \<Longrightarrow> dp st (idx (n_checkpoints inp) msk i) < INF_TIME \<Longrightarrow>
     card {b. bit msk b} = n \<Longrightarrow> length buf + n \<le> MAX_CP \<Longrightarrow>
     \<exists>l. reconstruct (n_checkpoints inp) (parent st) msk i buf = Some (buf @ l) \<and>
         length l = n \<and> distinct l \<and> set l = {b. bit msk b}"
proof (induction n arbitrary: msk i buf)
  case 0
  from inv "0.prems"(1,2) obtain r where r: "solver_route inp r (dp st (idx (n_checkpoints inp) msk i))"
    "mask_of r = msk" unfolding dp_inv_def by blast
  from solver_route_wf [OF r(1)] have "r \<noteq> []" "distinct r" by simp_all
  then have "card {b. bit (mask_of r) b} \<noteq> 0" by (simp add: card_bits_mask_of)
  with r(2) "0.prems"(3) show ?case by simp
next
  case (Suc n)
  let ?N = "n_checkpoints inp"
  let ?p = "parent st (idx ?N msk i)"
  have len: "\<not> length buf \<ge> MAX_CP" using Suc.prems(4) by simp
  from inv Suc.prems(1,2) have
    "?p = - 1 \<and> msk = push_bit i 1 \<or>
     (\<exists>m' i'. ?p = push_bit 5 (int m') OR int i' \<and> i' < ?N \<and> \<not> bit m' i \<and>
        msk = m' OR push_bit i 1 \<and> dp st (idx ?N m' i') < INF_TIME)"
    unfolding dp_inv_def by blast
  then show ?case
  proof (elim disjE conjE exE)
    assume p: "?p = - 1" and m: "msk = push_bit i 1"
    have "reconstruct ?N (parent st) msk i buf = Some (buf @ [i])"
      using len p by (subst reconstruct.simps) (simp add: Let_def)
    moreover have "Suc n = 1" using Suc.prems(3) m bits_single [of i] by simp
    ultimately show ?thesis using m bits_single [of i] by (intro exI [of _ "[i]"]) simp
  next
    fix m' i'
    assume p: "?p = push_bit 5 (int m') OR int i'" and i': "i' < ?N" and nb: "\<not> bit m' i"
      and m: "msk = m' OR push_bit i 1" and lt: "dp st (idx ?N m' i') < INF_TIME"
    have i32: "i' < 32" using i' N by (simp add: MAX_CP_def)
    have pn: "?p \<noteq> - 1" "?p \<noteq> - 2"
      using pack_nonneg [of m' i'] p by linarith+
    have up: "nat (drop_bit 5 ?p) = m'" "nat (?p AND 31) = i'"
      using p unpack_mask [OF i32, of m'] unpack_pos [OF i32, of m'] by simp_all
    have rec: "reconstruct ?N (parent st) msk i buf =
        reconstruct ?N (parent st) m' i' (buf @ [i])"
      using len pn up by (subst reconstruct.simps) (simp add: Let_def)
    have bits: "{b. bit msk b} = insert i {b. bit m' b}" unfolding m by (rule bits_add [OF nb])
    have cn: "card {b. bit m' b} = n"
      using Suc.prems(3) nb by (simp add: bits finite_bits_nat)
    from Suc.IH [OF i' lt cn, of "buf @ [i]"] Suc.prems(4)
    obtain l where l: "reconstruct ?N (parent st) m' i' (buf @ [i]) = Some ((buf @ [i]) @ l)"
      "length l = n" "distinct l" "set l = {b. bit m' b}" by auto
    show ?thesis
      using rec l nb bits by (intro exI [of _ "i # l"]) simp
  qed
qed

lemma populated_bits:
  assumes "dp_inv inp st" "i < n_checkpoints inp" "dp st (idx (n_checkpoints inp) msk i) < INF_TIME"
  shows "card {b. bit msk b} \<le> n_checkpoints inp \<and> (\<forall>b. bit msk b \<longrightarrow> b < n_checkpoints inp)
       \<and> bit msk i"
proof -
  from assms obtain r where r: "solver_route inp r (dp st (idx (n_checkpoints inp) msk i))"
    "mask_of r = msk" "last r = i" unfolding dp_inv_def by blast
  from solver_route_wf [OF r(1)] have w: "r \<noteq> []" "distinct r" "\<forall>c\<in>set r. c < n_checkpoints inp"
    by simp_all
  have s: "{b. bit msk b} = set r" unfolding r(2) [symmetric] by (rule bits_mask_of)
  have "set r \<subseteq> {0..<n_checkpoints inp}" using w(3) by auto
  then have "card (set r) \<le> card {0..<n_checkpoints inp}" by (intro card_mono) simp_all
  moreover have "i \<in> set r" using r(3) w(1) by auto
  ultimately show ?thesis using s w(3) by auto
qed

lemma best_cases:
  "best_count (find_best inp dpv) = - 1 \<or>
   (\<exists>m i. 1 \<le> m \<and> m < 2 ^ n_checkpoints inp \<and>
      candidate inp dpv m i (best_finish_time (find_best inp dpv)) \<and>
      best_mask (find_best inp dpv) = int m \<and> best_last (find_best inp dpv) = int i \<and>
      best_count (find_best inp dpv) = int (popcount m))"
  using best_inv_find_best [of inp dpv] unfolding best_inv_def by auto

lemma best_optimal:
  assumes "candidate inp dpv m i af" "1 \<le> m" "m < 2 ^ n_checkpoints inp"
  shows "int (popcount m) < best_count (find_best inp dpv) \<or>
        (int (popcount m) = best_count (find_best inp dpv) \<and>
         best_finish_time (find_best inp dpv) \<le> af)"
proof -
  have "(m, i) \<in> {1..<2 ^ n_checkpoints inp} \<times> {0..<n_checkpoints inp}"
    using assms by (simp add: candidate_def)
  with best_inv_find_best [of inp dpv] assms(1) show ?thesis
    unfolding best_inv_def by blast
qed

lemma solve_cases:
  assumes N: "n_checkpoints inp \<le> MAX_CP"
  shows "(best_count (find_best inp (dp (dp_fill inp))) = - 1 \<and>
          solve inp = Some \<lparr> count = 0, route = [], route_length = 0, finish_time = 0 \<rparr>) \<or>
         (\<exists>m i l. candidate inp (dp (dp_fill inp)) m i (best_finish_time (find_best inp (dp (dp_fill inp)))) \<and>
            best_mask (find_best inp (dp (dp_fill inp))) = int m \<and>
            best_count (find_best inp (dp (dp_fill inp))) = int (popcount m) \<and>
            length l = popcount m \<and> distinct l \<and> set l = {b. bit m b} \<and>
            (\<forall>c\<in>set l. c < n_checkpoints inp) \<and>
            solve inp = Some \<lparr> count = int (popcount m), route = l, route_length = length l,
                                finish_time = best_finish_time (find_best inp (dp (dp_fill inp))) \<rparr>)"
proof -
  let ?st = "dp_fill inp"
  let ?b = "find_best inp (dp ?st)"
  let ?N = "n_checkpoints inp"
  have inv: "dp_inv inp ?st" by (rule dp_inv_fill)
  from best_cases [of inp "dp ?st"] show ?thesis
  proof (elim disjE exE conjE)
    assume "best_count ?b = - 1"
    then show ?thesis by (simp add: solve_def Let_def)
  next
    fix m i
    assume c: "candidate inp (dp ?st) m i (best_finish_time ?b)"
      and bm: "best_mask ?b = int m" and bl: "best_last ?b = int i"
      and bc: "best_count ?b = int (popcount m)"
    from c have i: "i < ?N" and lt: "dp ?st (idx ?N m i) < INF_TIME"
      by (simp_all add: candidate_def)
    note pb = populated_bits [OF inv i lt]
    from pb N have "length ([]::nat list) + card {b. bit m b} \<le> MAX_CP" by simp
    from reconstruct_ok [OF inv N i lt refl this]
    obtain l where l: "reconstruct ?N (parent ?st) m i [] = Some l"
      "length l = card {b. bit m b}" "distinct l" "set l = {b. bit m b}" by auto
    have "solve inp = Some \<lparr> count = int (popcount m), route = rev l, route_length = length l,
                                finish_time = best_finish_time ?b \<rparr>"
      using bc bm bl l(1) by (simp add: solve_def Let_def)
    then show ?thesis
      using c bm bc l pb by (intro disjI2 exI [of _ m] exI [of _ i] exI [of _ "rev l"])
        (simp add: popcount_card)
  qed
qed

text \<open>
  Claim C8. For at most \<^verbatim>\<open>MAX_CP\<close> checkpoints \<^verbatim>\<open>solve\<close> returns a result, and its
  route is well formed: the length of the route is the count and the route length, no
  checkpoint occurs twice, every entry is a checkpoint index below \<open>n_checkpoints\<close>, and,
  when a route was found, the route lists exactly the members of the winning mask. In
  the example the reconstruction walks the parent chain from the state of mask 7 and
  last checkpoint 2, whose parent is the state of mask 3 and last checkpoint 1, down to
  the state of checkpoint 0.
\<close>

theorem solve_route_well_formed:
  assumes "n_checkpoints inp \<le> MAX_CP"
  shows "\<exists>res. solve inp = Some res \<and>
     int (length (route res)) = count res \<and> route_length res = length (route res) \<and>
     distinct (route res) \<and> list_all (\<lambda>c. c < n_checkpoints inp) (route res) \<and>
     (count res = 0 \<or>
      set (route res) = {c. bit (nat (best_mask (find_best inp (dp (dp_fill inp))))) c})"
  using solve_cases [OF assms] by (auto simp: list_all_iff)

theorem solve_route_well_formed_witness:
  "n_checkpoints triple_input \<le> MAX_CP \<and>
   solve triple_input =
     Some \<lparr> count = 3, route = [0, 1, 2], route_length = 3, finish_time = 1285 / 2 \<rparr> \<and>
   nat (best_mask (find_best triple_input (dp (dp_fill triple_input)))) = 7 \<and>
   nat (best_last (find_best triple_input (dp (dp_fill triple_input)))) = 2 \<and>
   parent (dp_fill triple_input) (idx 3 7 2) = push_bit 5 3 OR 1 \<and>
   set [0, 1, 2 :: nat] = {c. bit (7 :: nat) c}"
proof -
  have a: "n_checkpoints triple_input \<le> MAX_CP" by code_simp
  have b: "solve triple_input =
      Some \<lparr> count = 3, route = [0, 1, 2], route_length = 3, finish_time = 1285 / 2 \<rparr>"
    "nat (best_mask (find_best triple_input (dp (dp_fill triple_input)))) = 7"
    "nat (best_last (find_best triple_input (dp (dp_fill triple_input)))) = 2"
    "parent (dp_fill triple_input) (idx 3 7 2) = push_bit 5 3 OR 1"
    by code_simp+
  from solve_route_well_formed [OF a] a b show ?thesis by simp
qed

lemma route_depart_snoc:
  "route_depart inp u t (xs @ [j]) =
     (case route_depart inp u t xs of
        None \<Rightarrow> None
      | Some d \<Rightarrow> visit inp (float_add d (travel_time inp (last (u # xs)) j)) j)"
  by (induction xs arbitrary: u t) (auto split: option.splits)

lemma serve_visit: "serve inp arr j = Some d \<Longrightarrow> visit inp arr j = Some d"
  by (auto simp: serve_def visit_def Let_def split: if_splits)

lemma solver_route_depart:
  "solver_route inp r d \<Longrightarrow> route_depart inp START_IDX (of_int (start_time inp)) r = Some d"
proof (induction rule: solver_route.induct)
  case (first j d)
  then show ?case by (simp add: serve_visit)
next
  case (extend r d j d')
  from solver_route_wf [OF extend.hyps(1)] have "r \<noteq> []" by simp
  then show ?case using extend by (simp add: route_depart_snoc serve_visit)
qed

lemma candidate_feasible:
  assumes inv: "dp_inv inp st" and c: "candidate inp (dp st) m i af"
  shows "\<exists>r. solver_route inp r (dp st (idx (n_checkpoints inp) m i)) \<and> mask_of r = m \<and>
             last r = i \<and> length r = popcount m \<and>
             route_finish inp r = Some af \<and> feasible_route inp r"
proof -
  let ?d = "dp st (idx (n_checkpoints inp) m i)"
  from c have i: "i < n_checkpoints inp" and lt: "?d < INF_TIME"
    and fa: "finish_arrival inp ?d i = Some af" by (simp_all add: candidate_def)
  from inv i lt obtain r where r: "solver_route inp r ?d" "mask_of r = m" "last r = i"
    unfolding dp_inv_def by blast
  note w = solver_route_wf [OF r(1)]
  have rf: "route_finish inp r = Some af"
    using w r(3) fa solver_route_depart [OF r(1)] by (simp add: route_finish_def)
  have "length r = popcount m"
    using w r(2) by (simp add: popcount_card card_bits_mask_of [symmetric])
  moreover have "feasible_route inp r" using w rf by (simp add: feasible_route_def list_all_iff)
  ultimately show ?thesis using r rf by blast
qed

text \<open>
  Claim C7. When no route is feasible, its times computed in floats as the reference
  does, \<^verbatim>\<open>solve\<close> returns the count 0, the empty route, the route length 0 and the finish
  time 0, as a result and not as an error. Scenario S1, one checkpoint that is closed in
  every slot, is such an input.
\<close>

theorem solve_infeasible:
  assumes "\<forall>r. \<not> feasible_route inp r"
  shows "solve inp = Some \<lparr> count = 0, route = [], route_length = 0, finish_time = 0 \<rparr>"
proof -
  have "best_count (find_best inp (dp (dp_fill inp))) = - 1"
    using best_cases [of inp "dp (dp_fill inp)"]
      candidate_feasible [OF dp_inv_fill [of inp]] assms by blast
  then show ?thesis by (simp add: solve_def Let_def)
qed

lemma S1_visit: "visit S1_input arr c = None"
proof -
  have "open_search S1_input c arr k = - 1" for k
    by (rule open_search_none) (simp add: S1_input_def)
  then show ?thesis by (simp add: visit_def fnot_scan_start)
qed

lemma S1_infeasible: "\<forall>r. \<not> feasible_route S1_input r"
proof
  fix r
  show "\<not> feasible_route S1_input r"
  proof (cases r)
    case Nil
    then show ?thesis by (simp add: feasible_route_def route_finish_def)
  next
    case (Cons c cs)
    then show ?thesis by (simp add: feasible_route_def route_finish_def S1_visit)
  qed
qed

theorem solve_infeasible_witness:
  "(\<forall>r. \<not> feasible_route S1_input r) \<and>
   solve S1_input = Some \<lparr> count = 0, route = [], route_length = 0, finish_time = 0 \<rparr>"
  using solve_infeasible [OF S1_infeasible] S1_infeasible by simp

lemma finish_arrival_nonneg: "finish_arrival inp t i = Some af \<Longrightarrow> 0 \<le> af"
  by (auto simp: finish_arrival_def Let_def split: if_splits)

lemma encode_result_route:
  assumes "0 \<le> f"
  shows "encode_result \<lparr> count = c, route = l, route_length = length l, finish_time = f \<rparr> =
         [c, int (length l), \<lfloor>float_mul f 100\<rfloor>] @ map int l"
proof -
  have "map (\<lambda>i. int (l ! i)) [0..<length l] = map int l"
    by (rule nth_equalityI) simp_all
  moreover have "0 \<le> float_mul f 100"
    unfolding float_mul_def using assms by (intro round_float_nonneg) simp
  ultimately show ?thesis by (simp add: encode_result_def float_to_int_def)
qed

lemma finish_arrival_le_end:
  "finish_arrival inp t i = Some af \<Longrightarrow> af \<le> of_int (end_time inp)"
  by (auto simp: finish_arrival_def Let_def split: if_splits)

lemma centi_minutes_range:
  assumes "0 \<le> f" "f \<le> of_int e" "e \<le> 16777216"
  shows "0 \<le> \<lfloor>float_mul f 100\<rfloor>" "\<lfloor>float_mul f 100\<rfloor> < 2 ^ 31"
proof -
  have "0 \<le> float_mul f 100"
    unfolding float_mul_def using assms(1) by (intro round_float_nonneg) simp
  then show "0 \<le> \<lfloor>float_mul f 100\<rfloor>" by simp
  have "(of_int e :: rat) \<le> of_int 16777216" using assms(3) by (simp only: of_int_le_iff)
  with assms(2) have "f * 100 \<le> 1677721600" by simp
  then have "float_mul f 100 \<le> round_float 1677721600"
    unfolding float_mul_def by (rule round_float_mono)
  moreover have "round_float 1677721600 = 1677721600" by code_simp
  ultimately have "float_mul f 100 \<le> of_int 1677721600" by simp
  then have "\<lfloor>float_mul f 100\<rfloor> \<le> 1677721600" by (metis floor_mono floor_of_int)
  then show "\<lfloor>float_mul f 100\<rfloor> < 2 ^ 31" by simp
qed

text \<open>
  Claim C6, as the code has it. The output array starts with the count, the route length
  and the finish time in centi-minutes, which is the float product of the finish time and
  100 with its fraction dropped: the product is not negative, so the conversion \<^verbatim>\<open>(int)\<close>
  rounds down, and with an end time of at most \<open>2\<^sup>2\<^sup>4\<close> minutes it is below \<open>2\<^sup>3\<^sup>1\<close>, within
  the range of \<^verbatim>\<open>int\<close>. The checkpoint indices of the route follow, as many as the route
  length says.
\<close>

theorem solveNative_encoding:
  assumes "n_checkpoints inp \<le> MAX_CP" and "end_time inp \<le> 16777216"
  shows "\<exists>res. solve inp = Some res \<and>
     solveNative inp =
       Some ([count res, int (route_length res), \<lfloor>float_mul (finish_time res) 100\<rfloor>]
             @ map int (route res)) \<and>
     length (route res) = route_length res \<and>
     list_all (\<lambda>c. c < n_checkpoints inp) (route res) \<and>
     0 \<le> \<lfloor>float_mul (finish_time res) 100\<rfloor> \<and> \<lfloor>float_mul (finish_time res) 100\<rfloor> < 2 ^ 31"
  using solve_cases [OF assms(1)]
proof (elim disjE exE conjE)
  assume s: "solve inp = Some \<lparr> count = 0, route = [], route_length = 0, finish_time = 0 \<rparr>"
  from encode_result_route [of 0 0 "[]"] s
  show ?thesis by (simp add: solveNative_def float_mul_def round_float_0)
next
  fix m i l
  let ?f = "best_finish_time (find_best inp (dp (dp_fill inp)))"
  assume c: "candidate inp (dp (dp_fill inp)) m i ?f"
    and l: "\<forall>c\<in>set l. c < n_checkpoints inp"
    and s: "solve inp = Some \<lparr> count = int (popcount m), route = l, route_length = length l,
                                finish_time = ?f \<rparr>"
  from c have f: "0 \<le> ?f" "?f \<le> of_int (end_time inp)"
    by (auto simp: candidate_def dest: finish_arrival_nonneg finish_arrival_le_end)
  note r = centi_minutes_range [OF f assms(2)]
  from encode_result_route [OF f(1), of "int (popcount m)" l] s l r
  show ?thesis by (simp add: solveNative_def list_all_iff)
qed

theorem solveNative_encoding_witness:
  "n_checkpoints product_input \<le> MAX_CP \<and> end_time product_input \<le> 16777216 \<and>
   solve product_input =
     Some \<lparr> count = 1, route = [0], route_length = 1, finish_time = 1229271 / 2048 \<rparr> \<and>
   float_mul (1229271 / 2048) 100 = 60023 \<and>
   solveNative product_input = Some [1, 1, 60023, 0]"
proof -
  have a: "n_checkpoints product_input \<le> MAX_CP" "end_time product_input \<le> 16777216"
    by code_simp+
  have b: "solve product_input =
     Some \<lparr> count = 1, route = [0], route_length = 1, finish_time = 1229271 / 2048 \<rparr>"
    by code_simp
  have c: "float_mul (1229271 / 2048) 100 = 60023" by code_simp
  from solveNative_encoding [OF a] a b c show ?thesis by auto
qed

text \<open>
  The claim as the specification states it, with the third entry rounded, fails: a finish
  time of 617.0078125 minutes is 61700.78125 centi-minutes, a float, which rounds to
  61701; the output array holds 61700.
\<close>

theorem solveNative_truncates:
  "solve fraction_input =
     Some \<lparr> count = 1, route = [0], route_length = 1, finish_time = 78977 / 128 \<rparr> \<and>
   float_mul (78977 / 128) 100 = 61700 + 25 / 32 \<and>
   solveNative fraction_input = Some [1, 1, 61700, 0] \<and>
   round (78977 / 128 * 100 :: rat) = 61701"
  by code_simp


subsection \<open>Valid slot tables\<close>

lemma list_all_upt: "list_all P [0..<n] \<longleftrightarrow> (\<forall>k<n. P k)"
  unfolding list_all_iff set_upt by auto

lemma valid_inputD:
  assumes "valid_input inp"
  shows "1 \<le> n_checkpoints inp" "n_checkpoints inp \<le> 17" "1 \<le> n_slots inp"
    "\<And>u v. u < ALL_NODES \<Longrightarrow> v < ALL_NODES \<Longrightarrow> 0 \<le> travel_time inp u v"
    "0 \<le> dwell inp" "0 \<le> slot_starts inp 0" "slot_starts inp 0 mod 60 = 0"
    "\<And>s. s < n_slots inp \<Longrightarrow> slot_starts inp s = slot_starts inp 0 + 30 * int s"
    "of_int (end_time inp) < INF_TIME"
proof -
  from assms have a: "1 \<le> n_checkpoints inp" "n_checkpoints inp \<le> MAX_CP" "1 \<le> n_slots inp"
    "\<forall>u<ALL_NODES. \<forall>v<ALL_NODES. 0 \<le> travel_time inp u v"
    "0 \<le> dwell inp" "0 \<le> slot_starts inp 0" "slot_starts inp 0 mod 60 = 0"
    "\<forall>s<n_slots inp. slot_starts inp s = slot_starts inp 0 + 30 * int s"
    "of_int (end_time inp) < INF_TIME"
    unfolding valid_input_def list_all_upt by blast+
  show "1 \<le> n_checkpoints inp" "1 \<le> n_slots inp" "0 \<le> dwell inp" "0 \<le> slot_starts inp 0"
    "slot_starts inp 0 mod 60 = 0" "of_int (end_time inp) < INF_TIME" by (rule a)+
  show "n_checkpoints inp \<le> 17" using a(2) by (simp add: MAX_CP_def)
  show "\<And>u v. u < ALL_NODES \<Longrightarrow> v < ALL_NODES \<Longrightarrow> 0 \<le> travel_time inp u v"
    using a(4) by blast
  show "\<And>s. s < n_slots inp \<Longrightarrow> slot_starts inp s = slot_starts inp 0 + 30 * int s"
    using a(8) by blast
qed

lemma relaxesD:
  assumes "relaxes inp inp'"
  shows "n_checkpoints inp' = n_checkpoints inp" "n_slots inp' = n_slots inp"
    "\<And>s. s < n_slots inp \<Longrightarrow> slot_starts inp' s = slot_starts inp s"
    "dwell inp' = dwell inp" "start_time inp' = start_time inp" "end_time inp' = end_time inp"
    "\<And>c s. c < n_checkpoints inp \<Longrightarrow> s < n_slots inp \<Longrightarrow> open_at inp c s \<Longrightarrow> open_at inp' c s"
    "\<And>s. s < n_slots inp \<Longrightarrow> finish_open inp s \<Longrightarrow> finish_open inp' s"
    "\<And>u v. u < ALL_NODES \<Longrightarrow> v < ALL_NODES \<Longrightarrow> travel_time inp' u v \<le> travel_time inp u v"
proof -
  from assms have a: "n_checkpoints inp' = n_checkpoints inp" "n_slots inp' = n_slots inp"
    "\<forall>s<n_slots inp. slot_starts inp' s = slot_starts inp s"
    "dwell inp' = dwell inp" "start_time inp' = start_time inp" "end_time inp' = end_time inp"
    "\<forall>c<n_checkpoints inp. \<forall>s<n_slots inp. open_at inp c s \<longrightarrow> open_at inp' c s"
    "\<forall>s<n_slots inp. finish_open inp s \<longrightarrow> finish_open inp' s"
    "\<forall>u<ALL_NODES. \<forall>v<ALL_NODES. travel_time inp' u v \<le> travel_time inp u v"
    unfolding relaxes_def list_all_upt by blast+
  show "n_checkpoints inp' = n_checkpoints inp" "n_slots inp' = n_slots inp"
    "dwell inp' = dwell inp" "start_time inp' = start_time inp" "end_time inp' = end_time inp"
    by (rule a)+
  show "\<And>s. s < n_slots inp \<Longrightarrow> slot_starts inp' s = slot_starts inp s" using a(3) by blast
  show "\<And>c s. c < n_checkpoints inp \<Longrightarrow> s < n_slots inp \<Longrightarrow> open_at inp c s \<Longrightarrow> open_at inp' c s"
    using a(7) by blast
  show "\<And>s. s < n_slots inp \<Longrightarrow> finish_open inp s \<Longrightarrow> finish_open inp' s" using a(8) by blast
  show "\<And>u v. u < ALL_NODES \<Longrightarrow> v < ALL_NODES \<Longrightarrow> travel_time inp' u v \<le> travel_time inp u v"
    using a(9) by blast
qed

lemma node_bounds:
  "START_IDX < ALL_NODES" "FINISH_IDX < ALL_NODES"
  "valid_input inp \<Longrightarrow> j < n_checkpoints inp \<Longrightarrow> j < ALL_NODES"
  using valid_inputD(2) [of inp] by (simp_all add: START_IDX_def FINISH_IDX_def ALL_NODES_def)

lemma valid_input_exact:
  assumes "valid_input inp"
  shows "\<bar>slot_starts inp 0\<bar> \<le> 2 ^ 24" "\<bar>end_time inp\<bar> \<le> 2 ^ 24"
    "\<bar>start_time inp\<bar> \<le> 2 ^ 24" "\<bar>dwell inp\<bar> \<le> 2 ^ 24"
proof -
  from assms have b: "\<bar>start_time inp\<bar> \<le> 16777216" "\<bar>end_time inp\<bar> \<le> 16777216"
    "\<bar>dwell inp\<bar> \<le> 16777216" "\<bar>slot_starts inp (n_slots inp - 1)\<bar> \<le> 16777216"
    unfolding valid_input_def by auto
  have "n_slots inp - 1 < n_slots inp" using valid_inputD(3) [OF assms] by simp
  from valid_inputD(8) [OF assms this]
  have "slot_starts inp 0 \<le> slot_starts inp (n_slots inp - 1)" by simp
  with b(4) valid_inputD(6) [OF assms] show "\<bar>slot_starts inp 0\<bar> \<le> 2 ^ 24" by simp
  show "\<bar>end_time inp\<bar> \<le> 2 ^ 24" "\<bar>start_time inp\<bar> \<le> 2 ^ 24" "\<bar>dwell inp\<bar> \<le> 2 ^ 24"
    using b by simp_all
qed

lemma relaxes_refl: "relaxes inp inp"
  unfolding relaxes_def list_all_upt by simp

lemma canonical_ge:
  assumes "(z::int) mod 60 = 0" "of_int z \<le> t"
  shows "z \<le> spec_canonical t"
proof -
  have "z \<le> \<lfloor>t\<rfloor>" using assms(2) by (simp add: le_floor_iff)
  then have "z div 60 \<le> \<lfloor>t\<rfloor> div 60" by (rule zdiv_mono1) simp
  moreover have "z = 60 * (z div 60)" using assms(1) by auto
  ultimately have "z \<le> 60 * (\<lfloor>t\<rfloor> div 60)" by linarith
  then show ?thesis by (simp add: spec_canonical_def Let_def)
qed

lemma canonical_dvd30: "30 dvd spec_canonical t"
proof -
  have "(30::int) dvd 60 * q" for q
  proof -
    have "60 * q = 30 * (2 * q)" by simp
    then show ?thesis by (metis dvd_triv_left)
  qed
  then show ?thesis by (simp add: spec_canonical_def Let_def)
qed

lemma canonical_mono: "t1 \<le> t2 \<Longrightarrow> spec_canonical t1 \<le> spec_canonical t2"
  unfolding spec_canonical_def Let_def
  by (rule canon_mono) (rule floor_mono)

text \<open>On a valid table the index is the number of half hours from the first slot start
  to the canonical slot start, capped at the last index.\<close>

lemma a2si_valid:
  assumes v: "valid_input inp" and t: "of_int (slot_starts inp 0) \<le> t"
  shows "arrival_to_slot_index t inp =
           min (int (n_slots inp) - 1) ((spec_canonical t - slot_starts inp 0) div 30)"
    and "0 \<le> arrival_to_slot_index t inp" and "arrival_to_slot_index t inp < int (n_slots inp)"
proof -
  let ?M = "n_slots inp" and ?z = "slot_starts inp 0" and ?c = "spec_canonical t"
  note V = valid_inputD [OF v]
  have ge: "?z \<le> ?c" using V(7) t by (rule canonical_ge)
  have "(60::int) dvd ?z" using V(7) by (simp add: mod_eq_0_iff_dvd)
  then have "(30::int) dvd ?z" by (rule dvd_trans [rotated]) simp
  then have "30 dvd (?c - ?z)" using canonical_dvd30 [of t] by (rule_tac dvd_diff)
  then obtain q where q: "?c - ?z = 30 * q" by (auto elim: dvdE)
  then have qd: "(?c - ?z) div 30 = q" by simp
  have q0: "0 \<le> q" using ge q by arith
  define L where "L = slot_starts inp (?M - 1)"
  define Mi where "Mi = int ?M"
  have last: "L = ?z + 30 * (Mi - 1)"
    using V(3) V(8) [of "?M - 1"] by (simp add: of_nat_diff L_def Mi_def)
  have e: "arrival_to_slot_index t inp = min (int ?M - 1) q"
  proof (cases "?c > slot_starts inp (?M - 1)")
    case True
    then have "L < ?c" by (simp add: L_def)
    then have "Mi - 1 < q" using last q by arith
    then have "int ?M - 1 < q" by (simp add: Mi_def)
    with True t V(3) show ?thesis
      by (simp add: a2si_canonical [OF V(6)] of_nat_diff min_def)
  next
    case False
    then have "?c \<le> L" by (simp add: L_def)
    then have "q \<le> Mi - 1" using last q by arith
    then have qle: "q \<le> int ?M - 1" by (simp add: Mi_def)
    let ?s = "nat q"
    have s: "?s < ?M" using qle q0 by linarith
    have ss: "slot_starts inp ?s = ?c" using V(8) [OF s] q0 q by simp
    have "slot_search inp ?c 0 = int ?s"
    proof (rule slot_search_found)
      show "\<forall>j. 0 \<le> j \<and> j < ?s \<longrightarrow> slot_starts inp j \<noteq> ?c"
      proof (intro allI impI)
        fix j assume "0 \<le> j \<and> j < ?s"
        then have "j < ?M" "int j < q" using s by linarith+
        then show "slot_starts inp j \<noteq> ?c" using V(8) [of j] q by arith
      qed
    qed (use s ss in auto)
    with False t qle q0 show ?thesis
      by (simp add: a2si_canonical [OF V(6)] min_def)
  qed
  show "arrival_to_slot_index t inp = min (int ?M - 1) ((?c - ?z) div 30)"
    unfolding qd by (rule e)
  show "0 \<le> arrival_to_slot_index t inp" using e q0 V(3) by simp
  show "arrival_to_slot_index t inp < int ?M" using e by simp
qed

lemma a2si_mono:
  assumes v: "valid_input inp" and t: "of_int (slot_starts inp 0) \<le> t1" "t1 \<le> t2"
  shows "arrival_to_slot_index t1 inp \<le> arrival_to_slot_index t2 inp"
proof -
  have t2: "of_int (slot_starts inp 0) \<le> t2" using t by simp
  have "(spec_canonical t1 - slot_starts inp 0) div 30 \<le> (spec_canonical t2 - slot_starts inp 0) div 30"
    using canonical_mono [OF t(2)] by (intro zdiv_mono1) simp_all
  then have "min (int (n_slots inp) - 1) ((spec_canonical t1 - slot_starts inp 0) div 30)
      \<le> min (int (n_slots inp) - 1) ((spec_canonical t2 - slot_starts inp 0) div 30)"
    by (intro min.mono order_refl)
  then show ?thesis
    unfolding a2si_valid(1) [OF v t(1)] a2si_valid(1) [OF v t2] .
qed

lemma a2si_relaxes:
  assumes v: "valid_input inp" "valid_input inp'" and r: "relaxes inp inp'"
  shows "arrival_to_slot_index t inp' = arrival_to_slot_index t inp"
proof -
  note R = relaxesD [OF r]
  have z: "slot_starts inp' 0 = slot_starts inp 0"
    using R(3) [of 0] valid_inputD(3) [OF v(1)] by simp
  show ?thesis
  proof (cases "of_int (slot_starts inp 0) \<le> t")
    case True
    then show ?thesis
      using a2si_valid(1) [OF v(1) True] a2si_valid(1) [OF v(2), of t] z R(2) by simp
  next
    case False
    then show ?thesis using z by (simp add: arrival_to_slot_index_def)
  qed
qed

lemma scan_start_mono:
  assumes v: "valid_input inp" and t: "t1 \<le> t2"
  shows "scan_start t1 inp \<le> scan_start t2 inp"
proof (cases "of_int (slot_starts inp 0) \<le> t1")
  case True
  then have t2: "of_int (slot_starts inp 0) \<le> t2" using t by simp
  show ?thesis
    using a2si_mono [OF v True t] a2si_valid(2) [OF v True] a2si_valid(2) [OF v t2]
    by (simp add: scan_start_def Let_def)
next
  case False
  then show ?thesis by (simp add: scan_start_def arrival_to_slot_index_def)
qed

lemma table_mono:
  assumes v: "valid_input inp" and s: "s1 \<le> s2" "s2 < n_slots inp"
  shows "slot_starts inp s1 \<le> slot_starts inp s2" "0 \<le> slot_starts inp s1"
    "slot_starts inp 0 \<le> slot_starts inp s1"
  using valid_inputD(8) [OF v, of s1] valid_inputD(8) [OF v, of s2] valid_inputD(6) [OF v] s
  by simp_all

subsection \<open>The slot searches\<close>

lemma open_search_cases:
  "(open_search inp c t k = - 1 \<and> (\<forall>s. k \<le> s \<and> s < n_slots inp \<longrightarrow> \<not> open_at inp c s)) \<or>
   (\<exists>s. k \<le> s \<and> s < n_slots inp \<and> open_at inp c s \<and>
        (\<forall>j. k \<le> j \<and> j < s \<longrightarrow> \<not> open_at inp c j) \<and>
        open_search inp c t k = max t (of_int (slot_starts inp s)))"
proof (cases "\<exists>s. k \<le> s \<and> s < n_slots inp \<and> open_at inp c s")
  case False
  then show ?thesis using open_search_none [of k inp c t] by blast
next
  case True
  define s where "s = (LEAST s. k \<le> s \<and> s < n_slots inp \<and> open_at inp c s)"
  have s: "k \<le> s \<and> s < n_slots inp \<and> open_at inp c s"
    unfolding s_def using True by (rule LeastI_ex)
  have "\<not> open_at inp c j" if "k \<le> j \<and> j < s" for j
  proof
    assume "open_at inp c j"
    with that s have "k \<le> j \<and> j < n_slots inp \<and> open_at inp c j" by simp
    then have "s \<le> j" unfolding s_def by (rule Least_le)
    with that show False by simp
  qed
  then have "open_search inp c t k = max t (of_int (slot_starts inp s))"
    using s by (intro open_search_first) auto
  with s \<open>\<And>j. k \<le> j \<and> j < s \<Longrightarrow> \<not> open_at inp c j\<close> show ?thesis by blast
qed

lemma actual_finish_as_open:
  "actual_finish_search inp fa k = open_search (inp\<lparr> open_at := \<lambda>_. finish_open inp \<rparr>) 0 fa k"
proof (induction inp fa k rule: actual_finish_search.induct)
  case (1 inp fa k)
  let ?inp = "inp\<lparr> open_at := \<lambda>_. finish_open inp \<rparr>"
  show ?case
  proof (cases "k < n_slots inp \<and> \<not> finish_open inp k")
    case True
    then have "actual_finish_search inp fa k = actual_finish_search inp fa (Suc k)"
      by (subst actual_finish_search.simps) simp
    moreover have "open_search ?inp 0 fa k = open_search ?inp 0 fa (Suc k)"
      using True by (subst open_search.simps) simp
    ultimately show ?thesis using "1.IH" True by simp
  next
    case False
    then show ?thesis
      by (subst actual_finish_search.simps, subst open_search.simps) auto
  qed
qed

lemma actual_finish_cases:
  "(actual_finish_search inp fa k = - 1 \<and> (\<forall>s. k \<le> s \<and> s < n_slots inp \<longrightarrow> \<not> finish_open inp s)) \<or>
   (\<exists>s. k \<le> s \<and> s < n_slots inp \<and> finish_open inp s \<and>
        (\<forall>j. k \<le> j \<and> j < s \<longrightarrow> \<not> finish_open inp j) \<and>
        actual_finish_search inp fa k = max fa (of_int (slot_starts inp s)))"
  using open_search_cases [of "inp\<lparr> open_at := \<lambda>_. finish_open inp \<rparr>" 0 fa k]
  by (simp add: actual_finish_as_open)

lemma finish_search_intro:
  "k \<le> s \<Longrightarrow> s < n_slots inp \<Longrightarrow> finish_open inp s \<Longrightarrow>
   max fa (of_int (slot_starts inp s)) \<le> of_int (end_time inp) \<Longrightarrow>
   finish_search inp fa k"
proof (induction inp fa k rule: finish_search.induct)
  case (1 inp fa k)
  show ?case
  proof (cases "k = s")
    case True
    with "1.prems" show ?thesis
      by (subst finish_search.simps) (auto simp: max_def split: if_splits)
  next
    case False
    with "1.prems" have lt: "k < s" by simp
    show ?thesis
    proof (cases "finish_open inp k \<and>
               (if fa > of_int (slot_starts inp k)
                then fa else of_int (slot_starts inp k)) \<le> of_int (end_time inp)")
      case True
      with lt "1.prems" show ?thesis by (subst finish_search.simps) simp
    next
      case f: False
      have "finish_search inp fa (Suc k)" using "1.IH" "1.prems" lt f by auto
      with lt "1.prems" f show ?thesis by (subst finish_search.simps) simp
    qed
  qed
qed

text \<open>What a successful \<open>serve\<close> consists of.\<close>

lemma serve_SomeD:
  assumes v: "valid_input inp" and s: "serve inp arr j = Some d"
  shows "\<exists>s. scan_start arr inp \<le> s \<and> s < n_slots inp \<and> open_at inp j s \<and>
            d = float_add (max arr (of_int (slot_starts inp s))) (of_int (dwell inp))"
    and "d \<le> of_int (end_time inp)" and "can_reach_finish d j inp"
    and "of_int (slot_starts inp 0) \<le> d"
proof -
  let ?o = "find_next_open_time j arr inp"
  from s have o: "\<not> ?o < 0" and d: "d = float_add ?o (of_int (dwell inp))"
    and e: "d \<le> of_int (end_time inp)" and c: "can_reach_finish d j inp"
    by (auto simp: serve_def Let_def split: if_splits)
  from open_search_cases [of inp j arr "scan_start arr inp"] o
  obtain s where s: "scan_start arr inp \<le> s" "s < n_slots inp" "open_at inp j s"
    "?o = max arr (of_int (slot_starts inp s))"
    by (auto simp: fnot_scan_start)
  show "\<exists>s. scan_start arr inp \<le> s \<and> s < n_slots inp \<and> open_at inp j s \<and>
            d = float_add (max arr (of_int (slot_starts inp s))) (of_int (dwell inp))"
    using s d by auto
  show "d \<le> of_int (end_time inp)" "can_reach_finish d j inp" by (rule e, rule c)
  have "slot_starts inp 0 \<le> slot_starts inp s" using table_mono(3) [OF v _ s(2)] by simp
  then have "(of_int (slot_starts inp 0) :: rat) \<le> of_int (slot_starts inp s)" by simp
  moreover have dw: "(0::rat) \<le> of_int (dwell inp)" using valid_inputD(5) [OF v] by simp
  ultimately have "of_int (slot_starts inp 0) \<le> ?o + of_int (dwell inp)"
    unfolding s(4) by (simp add: max_def split: if_splits)
  then show "of_int (slot_starts inp 0) \<le> d"
    unfolding d by (rule float_add_ge_int [OF valid_input_exact(1) [OF v]])
qed

subsection \<open>Earlier arrivals and relaxed inputs\<close>

lemma open_first_le:
  assumes "k' \<le> s" "s < n_slots inp'" "open_at inp' c s"
  shows "\<exists>s'. k' \<le> s' \<and> s' \<le> s \<and> open_at inp' c s' \<and>
              open_search inp' c t' k' = max t' (of_int (slot_starts inp' s'))"
proof -
  from open_search_cases [of inp' c t' k'] assms
  obtain s' where s': "k' \<le> s'" "s' < n_slots inp'" "open_at inp' c s'"
    "\<forall>j. k' \<le> j \<and> j < s' \<longrightarrow> \<not> open_at inp' c j"
    "open_search inp' c t' k' = max t' (of_int (slot_starts inp' s'))" by blast
  have "s' \<le> s"
  proof (rule ccontr)
    assume "\<not> s' \<le> s"
    then have "k' \<le> s \<and> s < s'" using assms(1) by simp
    with s'(4) assms(3) show False by blast
  qed
  with s' show ?thesis by blast
qed

lemma scan_start_relaxes:
  assumes v: "valid_input inp" "valid_input inp'" and r: "relaxes inp inp'"
  shows "scan_start t inp' = scan_start t inp"
  by (simp add: scan_start_def a2si_relaxes [OF v r])

lemma scan_start_lt:
  assumes v: "valid_input inp"
  shows "scan_start t inp < n_slots inp"
proof (cases "of_int (slot_starts inp 0) \<le> t")
  case True
  from a2si_valid(2,3) [OF v True] show ?thesis by (simp add: scan_start_def Let_def)
next
  case False
  then show ?thesis using valid_inputD(3) [OF v]
    by (simp add: scan_start_def arrival_to_slot_index_def)
qed

lemma can_reach_finish_iff:
  assumes v: "valid_input inp" and t: "of_int (slot_starts inp 0) \<le> float_add t (travel_time inp i FINISH_IDX)"
  shows "can_reach_finish t i inp \<longleftrightarrow>
     (\<exists>s. scan_start (float_add t (travel_time inp i FINISH_IDX)) inp \<le> s \<and> s < n_slots inp \<and>
          finish_open inp s \<and>
          max (float_add t (travel_time inp i FINISH_IDX)) (of_int (slot_starts inp s)) \<le> of_int (end_time inp))"
proof -
  let ?fa = "float_add t (travel_time inp i FINISH_IDX)"
  have k: "0 \<le> arrival_to_slot_index ?fa inp" "arrival_to_slot_index ?fa inp < int (n_slots inp)"
    using a2si_valid(2,3) [OF v t] by simp_all
  then have ss: "scan_start ?fa inp = nat (arrival_to_slot_index ?fa inp)"
    by (simp add: scan_start_def Let_def)
  show ?thesis
  proof
    assume c: "can_reach_finish t i inp"
    then have "finish_search inp ?fa (scan_start ?fa inp)"
      unfolding ss by (simp add: can_reach_finish_def Let_def split: if_splits)
    from finish_search_true [OF this] show "\<exists>s. scan_start ?fa inp \<le> s \<and> s < n_slots inp \<and>
          finish_open inp s \<and> max ?fa (of_int (slot_starts inp s)) \<le> of_int (end_time inp)" .
  next
    assume "\<exists>s. scan_start ?fa inp \<le> s \<and> s < n_slots inp \<and>
          finish_open inp s \<and> max ?fa (of_int (slot_starts inp s)) \<le> of_int (end_time inp)"
    then obtain s where s: "scan_start ?fa inp \<le> s" "s < n_slots inp" "finish_open inp s"
      "max ?fa (of_int (slot_starts inp s)) \<le> of_int (end_time inp)" by blast
    then have "finish_search inp ?fa (nat (arrival_to_slot_index ?fa inp))"
      unfolding ss [symmetric] by (intro finish_search_intro [of _ s]) 
    moreover have "\<not> ?fa > of_int (end_time inp)" using s(4) by simp
    ultimately show "can_reach_finish t i inp"
      using k by (simp add: can_reach_finish_def Let_def)
  qed
qed

lemma serve_mono:
  assumes v: "valid_input inp" "valid_input inp'" and r: "relaxes inp inp'"
    and j: "j < n_checkpoints inp" and a: "arr' \<le> arr"
    and s: "serve inp arr j = Some d"
  shows "\<exists>d'. serve inp' arr' j = Some d' \<and> d' \<le> d"
proof -
  note V = valid_inputD [OF v(1)] and V' = valid_inputD [OF v(2)] and R = relaxesD [OF r]
  note D = serve_SomeD [OF v(1) s]
  from D(1) obtain s where s: "scan_start arr inp \<le> s" "s < n_slots inp" "open_at inp j s"
    "d = float_add (max arr (of_int (slot_starts inp s))) (of_int (dwell inp))" by blast
  have k: "scan_start arr' inp' \<le> s"
    using scan_start_mono [OF v(1) a] s(1) scan_start_relaxes [OF v r, of arr'] by simp
  have "open_at inp' j s" using R(7) [OF j s(2) s(3)] .
  from open_first_le [OF k _ this, of arr'] s(2) R(2)
  obtain s' where s': "scan_start arr' inp' \<le> s'" "s' \<le> s" "open_at inp' j s'"
    "open_search inp' j arr' (scan_start arr' inp') = max arr' (of_int (slot_starts inp' s'))"
    by auto
  let ?o' = "find_next_open_time j arr' inp'"
  have o': "?o' = max arr' (of_int (slot_starts inp s'))"
    using s'(4) R(3) [of s'] s'(2) s(2) by (simp add: fnot_scan_start)
  have tm: "slot_starts inp s' \<le> slot_starts inp s" "0 \<le> slot_starts inp s'"
    "slot_starts inp 0 \<le> slot_starts inp s'"
    using table_mono [OF v(1) s'(2) s(2)] by simp_all
  have ole: "?o' \<le> max arr (of_int (slot_starts inp s))"
    unfolding o' using a tm(1) by (intro max.mono) simp_all
  have o0: "\<not> ?o' < 0" unfolding o' using tm(2) by (simp add: max_def)
  define d' where "d' = float_add ?o' (of_int (dwell inp'))"
  have dle: "d' \<le> d" unfolding d'_def s(4) using ole R(4) by (intro float_add_mono) simp_all
  have de: "\<not> d' > of_int (end_time inp')" using dle D(2) R(6) by simp
  have z': "slot_starts inp' 0 = slot_starts inp 0" using R(3) [of 0] V(3) by simp
  have dz: "of_int (slot_starts inp 0) \<le> d'"
  proof -
    have "(of_int (slot_starts inp 0) :: rat) \<le> of_int (slot_starts inp s')" using tm(3) by simp
    also have "\<dots> \<le> ?o'" unfolding o' by simp
    also have "\<dots> \<le> ?o' + of_int (dwell inp')" using V'(5) by simp
    finally show ?thesis
      unfolding d'_def by (rule float_add_ge_int [OF valid_input_exact(1) [OF v(1)]])
  qed
  have jn: "j < ALL_NODES" using node_bounds(3) [OF v(1) j] .
  have T0: "0 \<le> travel_time inp' j FINISH_IDX" using V'(4) [OF jn node_bounds(2)] .
  have Tle: "travel_time inp' j FINISH_IDX \<le> travel_time inp j FINISH_IDX"
    using R(9) [OF jn node_bounds(2)] .
  let ?fa = "float_add d (travel_time inp j FINISH_IDX)" and ?fa' = "float_add d' (travel_time inp' j FINISH_IDX)"
  have fz': "of_int (slot_starts inp' 0) \<le> ?fa'"
    unfolding z' using dz T0 by (intro float_add_ge_int [OF valid_input_exact(1) [OF v(1)]]) simp
  have fz: "of_int (slot_starts inp 0) \<le> ?fa"
    using D(4) V(4) [OF jn node_bounds(2)]
    by (intro float_add_ge_int [OF valid_input_exact(1) [OF v(1)]]) simp
  have fle: "?fa' \<le> ?fa" using dle Tle by (rule float_add_mono)
  from D(3) can_reach_finish_iff [OF v(1) fz]
  obtain u where u: "scan_start ?fa inp \<le> u" "u < n_slots inp" "finish_open inp u"
    "max ?fa (of_int (slot_starts inp u)) \<le> of_int (end_time inp)" by blast
  have "scan_start ?fa' inp' \<le> u"
    using scan_start_mono [OF v(1) fle] u(1) scan_start_relaxes [OF v r, of ?fa'] by simp
  moreover have "finish_open inp' u" using R(8) [OF u(2) u(3)] .
  moreover have "max ?fa' (of_int (slot_starts inp' u)) \<le> of_int (end_time inp')"
  proof -
    have "max ?fa' (of_int (slot_starts inp u)) \<le> max ?fa (of_int (slot_starts inp u))"
      using fle by (intro max.mono) simp_all
    then have "max ?fa' (of_int (slot_starts inp u)) \<le> of_int (end_time inp)"
      using u(4) by (rule order_trans)
    then show ?thesis unfolding R(3) [OF u(2)] R(6) .
  qed
  ultimately have "can_reach_finish d' j inp'"
    using can_reach_finish_iff [OF v(2) fz'] u(2) R(2) by auto
  then have "serve inp' arr' j = Some d'"
    using o0 de by (simp add: serve_def Let_def d'_def)
  with dle show ?thesis by blast
qed

lemma actual_first_le:
  assumes "k' \<le> s" "s < n_slots inp'" "finish_open inp' s"
  shows "\<exists>s'. k' \<le> s' \<and> s' \<le> s \<and> finish_open inp' s' \<and>
              actual_finish_search inp' t' k' = max t' (of_int (slot_starts inp' s'))"
proof -
  from actual_finish_cases [of inp' t' k'] assms
  obtain s' where s': "k' \<le> s'" "s' < n_slots inp'" "finish_open inp' s'"
    "\<forall>j. k' \<le> j \<and> j < s' \<longrightarrow> \<not> finish_open inp' j"
    "actual_finish_search inp' t' k' = max t' (of_int (slot_starts inp' s'))" by blast
  have "s' \<le> s"
  proof (rule ccontr)
    assume "\<not> s' \<le> s"
    then have "k' \<le> s \<and> s < s'" using assms(1) by simp
    with s'(4) assms(3) show False by blast
  qed
  with s' show ?thesis by blast
qed

lemma finish_arrival_mono:
  assumes v: "valid_input inp" "valid_input inp'" and r: "relaxes inp inp'"
    and i: "i < n_checkpoints inp" and d: "d' \<le> d" "of_int (slot_starts inp 0) \<le> d'"
    and f: "finish_arrival inp d i = Some f"
  shows "\<exists>f'. finish_arrival inp' d' i = Some f' \<and> f' \<le> f"
proof -
  note V = valid_inputD [OF v(1)] and V' = valid_inputD [OF v(2)] and R = relaxesD [OF r]
  let ?fa = "float_add d (travel_time inp i FINISH_IDX)" and ?fa' = "float_add d' (travel_time inp' i FINISH_IDX)"
  have jn: "i < ALL_NODES" using node_bounds(3) [OF v(1) i] .
  have T0: "0 \<le> travel_time inp' i FINISH_IDX" using V'(4) [OF jn node_bounds(2)] .
  have Tle: "travel_time inp' i FINISH_IDX \<le> travel_time inp i FINISH_IDX"
    using R(9) [OF jn node_bounds(2)] .
  have z': "slot_starts inp' 0 = slot_starts inp 0" using R(3) [of 0] V(3) by simp
  have fle: "?fa' \<le> ?fa" using d(1) Tle by (rule float_add_mono)
  have fz: "of_int (slot_starts inp 0) \<le> ?fa'"
    using d(2) T0 by (intro float_add_ge_int [OF valid_input_exact(1) [OF v(1)]]) simp
  then have fz': "of_int (slot_starts inp' 0) \<le> ?fa'" using z' by simp
  have fz2: "of_int (slot_starts inp 0) \<le> ?fa" using fz fle by simp
  from f have e: "\<not> ?fa > of_int (end_time inp)"
    and af: "\<not> actual_finish_search inp ?fa (nat (arrival_to_slot_index ?fa inp)) < 0"
      "\<not> actual_finish_search inp ?fa (nat (arrival_to_slot_index ?fa inp)) > of_int (end_time inp)"
      "f = actual_finish_search inp ?fa (nat (arrival_to_slot_index ?fa inp))"
    by (auto simp: finish_arrival_def Let_def split: if_splits)
  have ss: "scan_start ?fa inp = nat (arrival_to_slot_index ?fa inp)"
    using a2si_valid(2) [OF v(1) fz2] by (simp add: scan_start_def Let_def)
  have ss': "scan_start ?fa' inp' = nat (arrival_to_slot_index ?fa' inp')"
    and k0: "\<not> arrival_to_slot_index ?fa' inp' < 0"
    using a2si_valid(2) [OF v(2) fz'] by (simp_all add: scan_start_def Let_def)
  from actual_finish_cases [of inp ?fa "scan_start ?fa inp"] af(1)
  obtain u where u: "scan_start ?fa inp \<le> u" "u < n_slots inp" "finish_open inp u"
    "actual_finish_search inp ?fa (scan_start ?fa inp) = max ?fa (of_int (slot_starts inp u))"
    unfolding ss by auto
  have k: "scan_start ?fa' inp' \<le> u"
    using scan_start_mono [OF v(1) fle] u(1) scan_start_relaxes [OF v r, of ?fa'] by simp
  have "finish_open inp' u" using R(8) [OF u(2) u(3)] .
  from actual_first_le [OF k _ this, of ?fa'] u(2) R(2)
  obtain u' where u': "u' \<le> u"
    "actual_finish_search inp' ?fa' (scan_start ?fa' inp') = max ?fa' (of_int (slot_starts inp' u'))"
    by auto
  define f' where "f' = actual_finish_search inp' ?fa' (nat (arrival_to_slot_index ?fa' inp'))"
  have f'eq: "f' = max ?fa' (of_int (slot_starts inp u'))"
    unfolding f'_def using u'(2) R(3) [of u'] u'(1) u(2) by (simp add: ss')
  have tm: "slot_starts inp u' \<le> slot_starts inp u" "0 \<le> slot_starts inp u'"
    using table_mono [OF v(1) u'(1) u(2)] by simp_all
  have feq: "f = max ?fa (of_int (slot_starts inp u))" using af(3) u(4) by (simp add: ss)
  have le: "f' \<le> f" unfolding f'eq feq using fle tm(1) by (intro max.mono) simp_all
  have f0: "\<not> f' < 0" unfolding f'eq using tm(2) by (simp add: max_def)
  have fe: "\<not> f' > of_int (end_time inp')" using le af(2,3) R(6) by simp
  have e': "\<not> ?fa' > of_int (end_time inp')" using fle e R(6) by simp
  have "finish_arrival inp' d' i = Some f'"
    using e' k0 f0 fe by (simp add: finish_arrival_def Let_def f'_def)
  with le show ?thesis by blast
qed

lemma solver_route_ge:
  assumes v: "valid_input inp"
  shows "solver_route inp r d \<Longrightarrow> of_int (slot_starts inp 0) \<le> d"
  by (erule solver_route.cases) (auto dest: serve_SomeD(4) [OF v])

lemma solver_route_mono:
  assumes v: "valid_input inp" "valid_input inp'" and r: "relaxes inp inp'"
  shows "solver_route inp r0 d \<Longrightarrow> \<exists>d'. solver_route inp' r0 d' \<and> d' \<le> d"
proof (induction rule: solver_route.induct)
  case (first j d)
  note R = relaxesD [OF r]
  have jn: "j < ALL_NODES" using node_bounds(3) [OF v(1) first.hyps(1)] .
  have "float_add (of_int (start_time inp')) (travel_time inp' START_IDX j)
        \<le> float_add (of_int (start_time inp)) (travel_time inp START_IDX j)"
    using R(9) [OF node_bounds(1) jn] R(5) by (intro float_add_mono) simp_all
  from serve_mono [OF v r first.hyps(1) this first.hyps(2)]
  obtain d' where d': "serve inp' (float_add (of_int (start_time inp')) (travel_time inp' START_IDX j)) j = Some d'"
    "d' \<le> d" by blast
  have "solver_route inp' [j] d'" using first.hyps(1) d'(1) R(1)
    by (intro solver_route.first) simp_all
  with d'(2) show ?case by blast
next
  case (extend r0 d0 j d)
  note R = relaxesD [OF r]
  from extend.IH obtain d0' where d0': "solver_route inp' r0 d0'" "d0' \<le> d0" by blast
  from solver_route_wf [OF extend.hyps(1)] have "last r0 < n_checkpoints inp" by auto
  then have ln: "last r0 < ALL_NODES" using node_bounds(3) [OF v(1)] by simp
  have jn: "j < ALL_NODES" using node_bounds(3) [OF v(1) extend.hyps(2)] .
  have a: "float_add d0' (travel_time inp' (last r0) j) \<le> float_add d0 (travel_time inp (last r0) j)"
    using R(9) [OF ln jn] d0'(2) by (intro float_add_mono)
  from serve_mono [OF v r extend.hyps(2) a extend.hyps(5)]
  obtain d' where d': "serve inp' (float_add d0' (travel_time inp' (last r0) j)) j = Some d'" "d' \<le> d"
    by blast
  have "\<not> float_add d0' (travel_time inp' (last r0) j) > of_int (end_time inp')"
    using a extend.hyps(4) R(6) by simp
  then have "solver_route inp' (r0 @ [j]) d'"
    using d0'(1) extend.hyps(2,3) d'(1) R(1) by (intro solver_route.extend) simp_all
  with d'(2) show ?case by blast
qed

subsection \<open>Completeness of the fill\<close>

text \<open>Entries of \<^verbatim>\<open>dp\<close> only decrease.\<close>

lemma init_step_dp_le: "dp (init_step inp j st) z \<le> dp st z"
  by (simp add: init_step_serve split: option.splits)

lemma bucket_step_dp: "dp (bucket_step inp j st) = dp st"
  by (simp add: bucket_step_def Let_def)

lemma dedup_bucket_dp: "dp (dedup_bucket k st) = dp st"
  by (simp add: dedup_bucket_def)

lemma fold_dp_le:
  assumes "\<And>x s z. dp (f x s) z \<le> dp s z"
  shows "dp (fold f xs s) z \<le> dp s z"
proof (induction xs arbitrary: s)
  case Nil
  show ?case by simp
next
  case (Cons x xs)
  have "dp (fold f xs (f x s)) z \<le> dp (f x s) z" by (rule Cons.IH)
  also have "\<dots> \<le> dp s z" by (rule assms)
  finally show ?case by simp
qed

lemma process_pos_dp_le: "dp (process_pos inp pc msk i st) z \<le> dp st z"
  unfolding process_pos_def Let_def
  by (auto intro: fold_dp_le extend_step_dp_le)

lemma process_mask_dp_le: "dp (process_mask inp pc msk st) z \<le> dp st z"
  unfolding process_mask_def by (rule fold_dp_le) (rule process_pos_dp_le)

lemma dp_round_dp_le: "dp (dp_round inp pc st) z \<le> dp st z"
proof -
  have "dp (fold (process_mask inp pc) (masks_by_pc st pc) st) z \<le> dp st z"
    by (rule fold_dp_le) (rule process_mask_dp_le)
  then show ?thesis by (simp add: dp_round_def Let_def dedup_bucket_dp)
qed

text \<open>A loop over a list visits each member: at some state not above the start, and
  the end is not above the state after that visit.\<close>

lemma fold_visit:
  assumes mono: "\<And>y s z. dp (f y s) z \<le> dp s z" and x: "x \<in> set xs"
  shows "\<exists>s1. (\<forall>z. dp s1 z \<le> dp s z) \<and> (\<forall>z. dp (fold f xs s) z \<le> dp (f x s1) z)"
proof -
  from x obtain ys zs where xs: "xs = ys @ x # zs" by (auto dest: split_list)
  let ?s1 = "fold f ys s"
  have "\<forall>z. dp ?s1 z \<le> dp s z" using fold_dp_le [of f, OF mono] by blast
  moreover have "\<forall>z. dp (fold f xs s) z \<le> dp (f x ?s1) z"
    unfolding xs using fold_dp_le [of f, OF mono] by simp
  ultimately show ?thesis by blast
qed

lemma extend_step_result:
  assumes "\<not> bit msk j" "\<not> float_add depart_i (travel_time inp i j) > of_int (end_time inp)"
    "serve inp (float_add depart_i (travel_time inp i j)) j = Some d"
  shows "dp (extend_step inp pc msk i depart_i j st)
           (idx (n_checkpoints inp) (msk OR push_bit j 1) j) \<le> d"
  using assms by (simp add: extend_step_serve)

lemma init_step_result:
  assumes "serve inp (float_add (of_int (start_time inp)) (travel_time inp START_IDX j)) j = Some d"
  shows "dp (init_step inp j st) (idx (n_checkpoints inp) (push_bit j 1) j) \<le> d"
  using assms by (simp add: init_step_serve)

lemma bucket_inv_update:
  assumes inv: "bucket_inv inp st" and j: "j < n_checkpoints inp" and c: "card {b. bit m b} = k"
  shows "bucket_inv inp (st\<lparr> dp := (dp st)(idx (n_checkpoints inp) m j := d),
            parent := p,
            masks_by_pc := (masks_by_pc st)(k := masks_by_pc st k @ [m]) \<rparr>)"
proof -
  let ?N = "n_checkpoints inp"
  let ?st = "st\<lparr> dp := (dp st)(idx ?N m j := d), parent := p,
            masks_by_pc := (masks_by_pc st)(k := masks_by_pc st k @ [m]) \<rparr>"
  from inv have a: "\<And>k m. m \<in> set (masks_by_pc st k) \<Longrightarrow> card {b. bit m b} = k"
    and b: "\<And>msk i. i < ?N \<Longrightarrow> dp st (idx ?N msk i) < INF_TIME \<Longrightarrow>
        msk \<in> set (masks_by_pc st (card {b. bit msk b}))"
    unfolding bucket_inv_def by blast+
  have grow: "set (masks_by_pc st k') \<subseteq> set (masks_by_pc ?st k')" for k' by auto
  have 1: "card {b. bit m' b} = k'" if "m' \<in> set (masks_by_pc ?st k')" for k' m'
    using that a [of m' k'] c by (cases "k' = k") auto
  have 2: "msk \<in> set (masks_by_pc ?st (card {b. bit msk b}))"
    if i: "i < ?N" and lt: "dp ?st (idx ?N msk i) < INF_TIME" for msk i
  proof (cases "idx ?N msk i = idx ?N m j")
    case True
    then have "msk = m" using i j by (simp add: idx_inj)
    then show ?thesis using c by simp
  next
    case False
    then have "dp st (idx ?N msk i) < INF_TIME" using lt by simp
    from b [OF i this] grow show ?thesis by blast
  qed
  show ?thesis unfolding bucket_inv_def using 1 2 by blast
qed

lemma card_bits_add:
  "\<not> bit (m::nat) j \<Longrightarrow> card {b. bit (m OR push_bit j 1) b} = Suc (card {b. bit m b})"
proof -
  assume nb: "\<not> bit m j"
  then have "j \<notin> {b. bit m b}" by simp
  then have "card (insert j {b. bit m b}) = Suc (card {b. bit m b})"
    using finite_bits_nat [of m] by (rule_tac card_insert_disjoint)
  then show ?thesis unfolding bits_add [OF nb] .
qed

lemma bucket_inv_extend_step:
  assumes inv: "bucket_inv inp st" and j: "j < n_checkpoints inp" and c: "card {b. bit msk b} = pc"
  shows "bucket_inv inp (extend_step inp pc msk i depart_i j st)"
proof (cases "extend_step inp pc msk i depart_i j st = st")
  case True
  then show ?thesis using inv by simp
next
  case False
  then have nb: "\<not> bit msk j" by (auto simp: extend_step_serve)
  from False obtain d where
    "extend_step inp pc msk i depart_i j st =
       st\<lparr> dp := (dp st)(idx (n_checkpoints inp) (msk OR push_bit j 1) j := d),
           parent := (parent st)(idx (n_checkpoints inp) (msk OR push_bit j 1) j :=
                        push_bit 5 (int msk) OR int i),
           masks_by_pc := (masks_by_pc st)
                        (pc + 1 := masks_by_pc st (pc + 1) @ [msk OR push_bit j 1]) \<rparr>"
    by (auto simp: extend_step_serve split: option.splits if_splits)
  moreover have "card {b. bit (msk OR push_bit j 1) b} = pc + 1"
    using card_bits_add [OF nb] c by simp
  ultimately show ?thesis using bucket_inv_update [OF inv j] by simp
qed

lemma bucket_inv_process_mask:
  assumes inv: "bucket_inv inp st" and c: "card {b. bit msk b} = pc"
  shows "bucket_inv inp (process_mask inp pc msk st)"
  unfolding process_mask_def
proof (rule fold_invariant [where P = "bucket_inv inp"])
  show "bucket_inv inp st" by (rule inv)
next
  fix i s assume s: "bucket_inv inp s"
  have "bucket_inv inp (fold (extend_step inp pc msk i d) [0..<n_checkpoints inp] s)" for d
    by (rule fold_invariant [where P = "bucket_inv inp"]) (auto intro: s bucket_inv_extend_step c)
  then show "bucket_inv inp (process_pos inp pc msk i s)"
    using s by (simp add: process_pos_def Let_def)
qed

lemma set_dedup: "set (remdups_adj (sort xs)) = set (xs::nat list)"
  by simp

lemma bucket_inv_cong:
  "bucket_inv inp st \<Longrightarrow> dp st' = dp st \<Longrightarrow>
   (\<And>k. set (masks_by_pc st' k) = set (masks_by_pc st k)) \<Longrightarrow> bucket_inv inp st'"
  unfolding bucket_inv_def by simp

lemma bucket_inv_dedup: "bucket_inv inp st \<Longrightarrow> bucket_inv inp (dedup_bucket k st)"
  by (erule bucket_inv_cong) (simp_all add: dedup_bucket_def)

lemma bucket_inv_round:
  assumes inv: "bucket_inv inp st"
  shows "bucket_inv inp (dp_round inp pc st)"
proof -
  have c: "\<And>m. m \<in> set (masks_by_pc st pc) \<Longrightarrow> card {b. bit m b} = pc"
    using inv unfolding bucket_inv_def by blast
  have "bucket_inv inp (fold (process_mask inp pc) (masks_by_pc st pc) st)"
    by (rule fold_invariant [where P = "bucket_inv inp"]) (auto intro: inv bucket_inv_process_mask c)
  then show ?thesis by (simp add: dp_round_def Let_def bucket_inv_dedup)
qed

text \<open>The state after the initialisation.\<close>

lemma init_masks:
  "masks_by_pc (fold (init_step inp) xs st) = masks_by_pc st"
  by (induction xs arbitrary: st) (auto simp: init_step_serve split: option.splits)

lemma init_single:
  assumes "\<And>msk i. i < n_checkpoints inp \<Longrightarrow> dp st (idx (n_checkpoints inp) msk i) < INF_TIME \<Longrightarrow>
      msk = push_bit i 1"
    and "\<forall>j\<in>set xs. j < n_checkpoints inp"
    and "i < n_checkpoints inp" "dp (fold (init_step inp) xs st) (idx (n_checkpoints inp) msk i) < INF_TIME"
  shows "msk = push_bit i 1"
  using assms
proof (induction xs arbitrary: st)
  case Nil
  then show ?case by simp
next
  case (Cons x xs)
  have x: "x < n_checkpoints inp" using Cons.prems(2) by simp
  show ?case
  proof (rule Cons.IH [of "init_step inp x st"])
    fix msk' i'
    assume i': "i' < n_checkpoints inp"
      and lt: "dp (init_step inp x st) (idx (n_checkpoints inp) msk' i') < INF_TIME"
    show "msk' = push_bit i' 1"
    proof (cases "idx (n_checkpoints inp) msk' i' = idx (n_checkpoints inp) (push_bit x 1) x")
      case True
      then show ?thesis using i' x by (simp add: idx_inj)
    next
      case False
      then have "dp (init_step inp x st) (idx (n_checkpoints inp) msk' i')
               = dp st (idx (n_checkpoints inp) msk' i')"
        by (simp add: init_step_serve split: option.splits)
      with lt Cons.prems(1) [OF i'] show ?thesis by simp
    qed
  qed (use Cons.prems in auto)
qed

lemma bucket_fold_dp: "dp (fold (bucket_step inp) xs st) = dp st"
  by (induction xs arbitrary: st) (simp_all add: bucket_step_dp)

lemma bucket_step_masks:
  "set (masks_by_pc (bucket_step inp j st) k) =
     set (masks_by_pc st k) \<union>
     (if k = 1 \<and> dp st (idx (n_checkpoints inp) (push_bit j 1) j) < INF_TIME
      then {push_bit j 1} else {})"
  by (simp add: bucket_step_def Let_def)

lemma bucket_fold_masks:
  "set (masks_by_pc (fold (bucket_step inp) xs st) k) =
     set (masks_by_pc st k) \<union>
     (if k = 1 then {push_bit j 1 | j. j \<in> set xs \<and>
                       dp st (idx (n_checkpoints inp) (push_bit j 1) j) < INF_TIME} else {})"
proof (induction xs arbitrary: st)
  case Nil
  show ?case by simp
next
  case (Cons x xs)
  show ?case
    unfolding fold_simps Cons.IH bucket_step_masks bucket_step_dp by auto
qed

lemma bucket_inv_start:
  "bucket_inv inp (dedup_bucket 1 (fold (bucket_step inp) [0..<n_checkpoints inp]
      (fold (init_step inp) [0..<n_checkpoints inp] initial_state)))"
proof (rule bucket_inv_dedup)
  let ?N = "n_checkpoints inp"
  let ?st1 = "fold (init_step inp) [0..<?N] initial_state"
  let ?st2 = "fold (bucket_step inp) [0..<?N] ?st1"
  have m1: "masks_by_pc ?st1 k = []" for k by (simp add: init_masks initial_state_def)
  have single: "msk = push_bit i 1"
    if "i < ?N" "dp ?st1 (idx ?N msk i) < INF_TIME" for msk i
    by (rule init_single [of inp initial_state "[0..<?N]" i msk])
       (use that in \<open>auto simp: initial_state_def\<close>)
  have b: "set (masks_by_pc ?st2 k) =
      (if k = 1 then {push_bit j 1 | j. j \<in> set [0..<?N] \<and>
                       dp ?st1 (idx ?N (push_bit j 1) j) < INF_TIME} else {})" for k
    unfolding bucket_fold_masks m1 by simp
  have d: "dp ?st2 = dp ?st1" by (rule bucket_fold_dp)
  show "bucket_inv inp ?st2"
    unfolding bucket_inv_def
  proof (intro conjI allI impI)
    fix k m assume "m \<in> set (masks_by_pc ?st2 k)"
    then obtain j where "k = 1" "m = push_bit j 1"
      unfolding b by (auto split: if_splits)
    then show "card {b. bit m b} = k" using bits_single [of j] by simp
  next
    fix msk i assume i: "i < ?N" and lt: "dp ?st2 (idx ?N msk i) < INF_TIME"
    then have lt1: "dp ?st1 (idx ?N msk i) < INF_TIME" by (simp add: d)
    from single [OF i lt1] have m: "msk = push_bit i 1" .
    then have c: "card {b. bit msk b} = 1" using bits_single [of i] by simp
    show "msk \<in> set (masks_by_pc ?st2 (card {b. bit msk b}))"
      unfolding c b using i lt1 m by auto
  qed
qed

lemma complete_mono:
  "complete_upto inp k st \<Longrightarrow> (\<And>z. dp st' z \<le> dp st z) \<Longrightarrow> complete_upto inp k st'"
  unfolding complete_upto_def by (meson order_trans)

lemma complete_init:
  "complete_upto inp 1 (fold (init_step inp) [0..<n_checkpoints inp] initial_state)"
  unfolding complete_upto_def
proof (intro allI impI)
  fix r d assume r: "solver_route inp r d" and l: "length r \<le> 1"
  let ?N = "n_checkpoints inp"
  let ?st = "fold (init_step inp) [0..<?N] initial_state"
  from r show "dp ?st (idx ?N (mask_of r) (last r)) \<le> d"
  proof (cases rule: solver_route.cases)
    case (first j)
    then have "j \<in> set [0..<?N]" by simp
    from fold_visit [of "init_step inp", OF init_step_dp_le this, of initial_state]
    obtain s1 where s1: "\<And>z. dp ?st z \<le> dp (init_step inp j s1) z" by blast
    have "dp ?st (idx ?N (push_bit j 1) j) \<le> dp (init_step inp j s1) (idx ?N (push_bit j 1) j)"
      by (rule s1)
    also have "\<dots> \<le> d" using first(3) by (rule init_step_result)
    finally show ?thesis using first(1) by simp
  next
    case (extend r0 d0 j)
    with l have "r0 = []" by simp
    with solver_route_wf [OF extend(2)] show ?thesis by simp
  qed
qed

lemma complete_round:
  assumes v: "valid_input inp" and c: "complete_upto inp pc st" and b: "bucket_inv inp st"
    and pc: "1 \<le> pc"
  shows "complete_upto inp (Suc pc) (dp_round inp pc st)"
  unfolding complete_upto_def
proof (intro allI impI)
  fix r' d' assume r': "solver_route inp r' d'" and l: "length r' \<le> Suc pc"
  let ?N = "n_checkpoints inp"
  let ?st' = "dp_round inp pc st"
  show "dp ?st' (idx ?N (mask_of r') (last r')) \<le> d'"
  proof (cases "length r' \<le> pc")
    case True
    with c r' have "dp st (idx ?N (mask_of r') (last r')) \<le> d'"
      unfolding complete_upto_def by blast
    with dp_round_dp_le [of inp pc st "idx ?N (mask_of r') (last r')"] show ?thesis by simp
  next
    case False
    with l have len: "length r' = Suc pc" by simp
    from r' show ?thesis
    proof (cases rule: solver_route.cases)
      case (first j)
      with len pc show ?thesis by simp
    next
      case (extend r d j)
      let ?m = "mask_of r" and ?i = "last r"
      let ?si = "idx ?N ?m ?i"
      note w = solver_route_wf [OF extend(2)]
      have i: "?i < ?N" and im: "bit ?m ?i" using w by (auto simp: bit_mask_of)
      have lr: "length r = pc" using len extend(1) by simp
      have dd: "dp st ?si \<le> d" using c extend(2) lr unfolding complete_upto_def by blast
      have dinf: "d < INF_TIME"
        using solver_route_checks [OF extend(2)] valid_inputD(9) [OF v] by simp
      have cm: "card {b. bit ?m b} = pc" using w lr by (simp add: card_bits_mask_of)
      have "?m \<in> set (masks_by_pc st (card {b. bit ?m b}))"
        using b i dd dinf unfolding bucket_inv_def by (meson le_less_trans)
      then have mem: "?m \<in> set (masks_by_pc st pc)" by (simp add: cm)
      from fold_visit [of "process_mask inp pc", OF process_mask_dp_le mem, of st]
      obtain s1 where s1: "\<And>z. dp s1 z \<le> dp st z"
        "\<And>z. dp (fold (process_mask inp pc) (masks_by_pc st pc) st) z
              \<le> dp (process_mask inp pc ?m s1) z" by blast
      have "?i \<in> set [0..<?N]" using i by simp
      from fold_visit [of "process_pos inp pc ?m", OF process_pos_dp_le this, of s1]
      obtain s2 where s2: "\<And>z. dp s2 z \<le> dp s1 z"
        "\<And>z. dp (process_mask inp pc ?m s1) z \<le> dp (process_pos inp pc ?m ?i s2) z"
        unfolding process_mask_def by blast
      let ?di = "dp s2 ?si"
      have di: "?di \<le> d" using s2(1) [of ?si] s1(1) [of ?si] dd by simp
      then have dilt: "\<not> ?di \<ge> INF_TIME" using dinf by simp
      have pp: "process_pos inp pc ?m ?i s2 =
          fold (extend_step inp pc ?m ?i ?di) [0..<?N] s2"
        using im dilt by (simp add: process_pos_def Let_def bit_test_nat_pos bit_test_nat_zero)
      have "j \<in> set [0..<?N]" using extend(3) by simp
      from fold_visit [of "extend_step inp pc ?m ?i ?di", OF extend_step_dp_le this, of s2]
      obtain s3 where s3:
        "\<And>z. dp (fold (extend_step inp pc ?m ?i ?di) [0..<?N] s2) z
              \<le> dp (extend_step inp pc ?m ?i ?di j s3) z" by blast
      have arr: "float_add ?di (travel_time inp ?i j) \<le> float_add d (travel_time inp ?i j)"
        using di by (intro float_add_mono) simp_all
      from serve_mono [OF v v relaxes_refl extend(3) arr extend(6)]
      obtain d'' where d'': "serve inp (float_add ?di (travel_time inp ?i j)) j = Some d''" "d'' \<le> d'"
        by blast
      have g: "\<not> float_add ?di (travel_time inp ?i j) > of_int (end_time inp)"
        using arr extend(5) by simp
      have nb: "\<not> bit ?m j" using extend(4) by (simp add: bit_mask_of)
      let ?z = "idx ?N (?m OR push_bit j 1) j"
      have "dp ?st' ?z = dp (fold (process_mask inp pc) (masks_by_pc st pc) st) ?z"
        by (simp add: dp_round_def Let_def dedup_bucket_dp)
      also have "\<dots> \<le> dp (process_mask inp pc ?m s1) ?z" by (rule s1(2))
      also have "\<dots> \<le> dp (process_pos inp pc ?m ?i s2) ?z" by (rule s2(2))
      also have "\<dots> \<le> dp (extend_step inp pc ?m ?i ?di j s3) ?z" unfolding pp by (rule s3)
      also have "\<dots> \<le> d''" using nb g d''(1) by (rule extend_step_result)
      also have "\<dots> \<le> d'" by (rule d''(2))
      finally show ?thesis unfolding extend(1) mask_of_snoc by simp
    qed
  qed
qed

lemma fold_upt_invariant:
  "P a s \<Longrightarrow> (\<And>k s. a \<le> k \<Longrightarrow> k < b \<Longrightarrow> P k s \<Longrightarrow> P (Suc k) (f k s)) \<Longrightarrow> a \<le> b \<Longrightarrow>
   P b (fold f [a..<b] s)"
proof (induction "b - a" arbitrary: a s)
  case 0
  then show ?case by simp
next
  case (Suc n)
  then have lt: "a < b" by simp
  have "P (Suc a) (f a s)" using Suc.prems(1,2) lt by simp
  then have "P b (fold f [Suc a..<b] (f a s))"
    using Suc.hyps(2) Suc.prems(2) lt by (intro Suc.hyps(1)) auto
  then show ?case using lt by (simp add: upt_conv_Cons)
qed

lemma dp_fill_complete:
  assumes v: "valid_input inp" and r: "solver_route inp r d"
  shows "dp (dp_fill inp) (idx (n_checkpoints inp) (mask_of r) (last r)) \<le> d"
proof -
  let ?N = "n_checkpoints inp"
  let ?st1 = "fold (init_step inp) [0..<?N] initial_state"
  let ?st3 = "dedup_bucket 1 (fold (bucket_step inp) [0..<?N] ?st1)"
  let ?P = "\<lambda>k s. complete_upto inp k s \<and> bucket_inv inp s"
  have c3: "complete_upto inp 1 ?st3"
  proof (rule complete_mono [OF complete_init])
    fix z show "dp ?st3 z \<le> dp ?st1 z"
      by (simp only: dedup_bucket_dp bucket_fold_dp order_refl)
  qed
  have "?P ?N (fold (dp_round inp) [1..<?N] ?st3)"
  proof (rule fold_upt_invariant [where P = ?P])
    show "?P 1 ?st3" using c3 bucket_inv_start [of inp] by blast
    show "1 \<le> ?N" using valid_inputD(1) [OF v] .
  next
    fix k s assume "1 \<le> k" "k < ?N" "?P k s"
    then show "?P (Suc k) (dp_round inp k s)"
      using complete_round [OF v, of k s] bucket_inv_round [of inp s k] by blast
  qed
  then have "complete_upto inp ?N (dp_fill inp)" by (simp add: dp_fill_def Let_def)
  moreover have "length r \<le> ?N"
  proof -
    note w = solver_route_wf [OF r]
    have "set r \<subseteq> {0..<?N}" using w by auto
    then have "card (set r) \<le> card {0..<?N}" by (intro card_mono) simp_all
    then show ?thesis using w by (simp add: distinct_card)
  qed
  ultimately show ?thesis using r unfolding complete_upto_def by blast
qed

subsection \<open>Optimality over the routes the solver builds\<close>

lemma mask_of_range:
  assumes "r \<noteq> []" "\<forall>c\<in>set r. c < N"
  shows "1 \<le> mask_of r" "mask_of r < 2 ^ N"
proof -
  have "bit (mask_of r) (last r)" using assms(1) by (simp add: bit_mask_of)
  have "mask_of r \<noteq> 0"
  proof
    assume "mask_of r = 0"
    with \<open>bit (mask_of r) (last r)\<close> show False by simp
  qed
  then show "1 \<le> mask_of r" by simp
  have "take_bit N (mask_of r) = mask_of r"
    by (rule bit_eqI) (use assms(2) in \<open>auto simp: bit_take_bit_iff bit_mask_of\<close>)
  then show "mask_of r < 2 ^ N" by (simp add: take_bit_nat_eq_self_iff)
qed

text \<open>The result of \<^verbatim>\<open>solve\<close> is at least as good as every route the solver can build.\<close>

lemma solve_optimal:
  assumes v: "valid_input inp" and r: "solver_route inp r d"
    and f: "finish_arrival inp d (last r) = Some f"
  shows "\<exists>res. solve inp = Some res \<and>
     (int (length r) < count res \<or> (int (length r) = count res \<and> finish_time res \<le> f))"
proof -
  let ?N = "n_checkpoints inp"
  let ?dpv = "dp (dp_fill inp)"
  let ?m = "mask_of r" and ?i = "last r"
  let ?dv = "?dpv (idx ?N ?m ?i)"
  note w = solver_route_wf [OF r]
  have i: "?i < ?N" using w by auto
  have dv: "?dv \<le> d" by (rule dp_fill_complete [OF v r])
  have "d < INF_TIME" using solver_route_checks [OF r] valid_inputD(9) [OF v] by simp
  with dv have lt: "?dv < INF_TIME" by simp
  from dp_inv_fill [of inp] i lt obtain r2 where "solver_route inp r2 ?dv"
    unfolding dp_inv_def by blast
  then have ge: "of_int (slot_starts inp 0) \<le> ?dv" by (rule solver_route_ge [OF v])
  from finish_arrival_mono [OF v v relaxes_refl i dv ge f]
  obtain f' where f': "finish_arrival inp ?dv ?i = Some f'" "f' \<le> f" by blast
  have c: "candidate inp ?dpv ?m ?i f'" using i lt f'(1) by (simp add: candidate_def)
  have pm: "popcount ?m = length r" using w by (simp add: popcount_card card_bits_mask_of)
  from best_optimal [OF c mask_of_range [OF w [THEN conjunct1] w [THEN conjunct2, THEN conjunct2]]]
  have b: "int (length r) < best_count (find_best inp ?dpv) \<or>
          (int (length r) = best_count (find_best inp ?dpv) \<and>
           best_finish_time (find_best inp ?dpv) \<le> f')"
    by (simp add: pm)
  have N: "?N \<le> MAX_CP" using valid_inputD(2) [OF v] by (simp add: MAX_CP_def)
  from solve_cases [OF N] show ?thesis
  proof (elim disjE exE conjE)
    assume "best_count (find_best inp ?dpv) = - 1"
    with b show ?thesis by simp
  next
    fix m i l
    assume "best_count (find_best inp ?dpv) = int (popcount m)"
      "solve inp = Some \<lparr> count = int (popcount m), route = l, route_length = length l,
                                finish_time = best_finish_time (find_best inp ?dpv) \<rparr>"
    with b f'(2) show ?thesis by auto
  qed
qed

text \<open>The result of \<^verbatim>\<open>solve\<close> is the zero result or is reached by a route the solver
  has built.\<close>

lemma solve_achieved:
  assumes N: "n_checkpoints inp \<le> MAX_CP"
  shows "\<exists>res. solve inp = Some res \<and> 0 \<le> count res \<and>
     ((count res = 0 \<and> finish_time res = 0) \<or>
      (\<exists>r d. solver_route inp r d \<and> int (length r) = count res \<and>
         finish_arrival inp d (last r) = Some (finish_time res)))"
  using solve_cases [OF N]
proof (elim disjE exE conjE)
  assume "solve inp = Some \<lparr> count = 0, route = [], route_length = 0, finish_time = 0 \<rparr>"
  then show ?thesis by simp
next
  fix m i l
  let ?dpv = "dp (dp_fill inp)"
  assume c: "candidate inp ?dpv m i (best_finish_time (find_best inp ?dpv))"
    and s: "solve inp = Some \<lparr> count = int (popcount m), route = l, route_length = length l,
                                finish_time = best_finish_time (find_best inp ?dpv) \<rparr>"
  from candidate_feasible [OF dp_inv_fill c]
  obtain r where r: "solver_route inp r (?dpv (idx (n_checkpoints inp) m i))"
    "last r = i" "length r = popcount m" by blast
  from c have "finish_arrival inp (?dpv (idx (n_checkpoints inp) m i)) (last r)
      = Some (best_finish_time (find_best inp ?dpv))"
    using r(2) by (simp add: candidate_def)
  with r(1,3) s show ?thesis by auto
qed

text \<open>On valid input, Finish can be reached where the actual finish minute exists.\<close>

lemma finish_arrival_can_reach:
  assumes v: "valid_input inp" and f: "finish_arrival inp d i = Some f"
  shows "can_reach_finish d i inp"
proof -
  let ?fa = "float_add d (travel_time inp i FINISH_IDX)"
  let ?k = "arrival_to_slot_index ?fa inp"
  from f have e: "\<not> ?fa > of_int (end_time inp)" and k0: "\<not> ?k < 0"
    and af: "\<not> actual_finish_search inp ?fa (nat ?k) < 0"
      "\<not> actual_finish_search inp ?fa (nat ?k) > of_int (end_time inp)"
    by (auto simp: finish_arrival_def Let_def split: if_splits)
  have z: "of_int (slot_starts inp 0) \<le> ?fa"
    using k0 by (auto simp: arrival_to_slot_index_def split: if_splits)
  have ss: "scan_start ?fa inp = nat ?k" using k0 by (simp add: scan_start_def Let_def)
  from actual_finish_cases [of inp ?fa "nat ?k"] af(1)
  obtain u where u: "nat ?k \<le> u" "u < n_slots inp" "finish_open inp u"
    "actual_finish_search inp ?fa (nat ?k) = max ?fa (of_int (slot_starts inp u))" by auto
  have "\<not> max ?fa (of_int (slot_starts inp u)) > of_int (end_time inp)"
    using af(2) unfolding u(4) .
  then have "max ?fa (of_int (slot_starts inp u)) \<le> of_int (end_time inp)"
    by (simp only: not_less)
  with u show ?thesis unfolding can_reach_finish_iff [OF v z] ss by blast
qed

lemma visit_SomeD:
  assumes v: "valid_input inp" and s: "visit inp arr j = Some d"
    and a: "round_float arr = arr"
  shows "arr \<le> d" "d \<le> of_int (end_time inp)"
proof -
  let ?o = "find_next_open_time j arr inp"
  from s have o: "\<not> ?o < 0" and d: "d = float_add ?o (of_int (dwell inp))"
    and e: "d \<le> of_int (end_time inp)"
    by (auto simp: visit_def Let_def split: if_splits)
  from open_search_cases [of inp j arr "scan_start arr inp"] o
  obtain s where "?o = max arr (of_int (slot_starts inp s))"
    by (auto simp: fnot_scan_start)
  then have "arr \<le> ?o" by simp
  then have "arr \<le> ?o + of_int (dwell inp)" using valid_inputD(5) [OF v] by simp
  then have "round_float arr \<le> round_float (?o + of_int (dwell inp))" by (rule round_float_mono)
  then show "arr \<le> d" unfolding d float_add_def a .
  show "d \<le> of_int (end_time inp)" by (rule e)
qed

lemma visit_serve:
  assumes "visit inp arr j = Some d" "can_reach_finish d j inp"
  shows "serve inp arr j = Some d"
  using assms by (auto simp: visit_def serve_def Let_def split: if_splits)

lemma prefix_feasible_iff:
  "prefix_feasible inp r \<longleftrightarrow>
     r \<noteq> [] \<and> (\<forall>k. 1 \<le> k \<and> k \<le> length r \<longrightarrow> feasible_route inp (take k r))"
  unfolding prefix_feasible_def list_all_iff by auto

lemma prefix_feasible_solver_route:
  assumes v: "valid_input inp"
  shows "prefix_feasible inp r \<Longrightarrow>
     \<exists>d. solver_route inp r d \<and>
         route_depart inp START_IDX (of_int (start_time inp)) r = Some d"
proof (induction r rule: rev_induct)
  case Nil
  then show ?case by (simp add: prefix_feasible_iff)
next
  case (snoc j xs)
  let ?N = "n_checkpoints inp"
  from snoc.prems have all: "\<And>k. 1 \<le> k \<Longrightarrow> k \<le> Suc (length xs) \<Longrightarrow>
      feasible_route inp (take k (xs @ [j]))"
    by (simp add: prefix_feasible_iff)
  from all [of "Suc (length xs)"] have fr: "feasible_route inp (xs @ [j])" by simp
  then have dj: "distinct (xs @ [j])" and jN: "j < ?N"
    and rf: "route_finish inp (xs @ [j]) \<noteq> None"
    by (simp_all add: feasible_route_def list_all_iff)
  from rf obtain d' f where d': "route_depart inp START_IDX (of_int (start_time inp)) (xs @ [j]) = Some d'"
    and f: "finish_arrival inp d' j = Some f"
    by (auto simp: route_finish_def split: option.splits)
  have crf: "can_reach_finish d' j inp" by (rule finish_arrival_can_reach [OF v f])
  show ?case
  proof (cases "xs = []")
    case True
    with d' have vis: "visit inp (float_add (of_int (start_time inp)) (travel_time inp START_IDX j)) j = Some d'"
      by (simp split: option.splits)
    have "solver_route inp [j] d'"
      using jN visit_serve [OF vis crf] by (rule solver_route.first)
    with d' True show ?thesis by auto
  next
    case False
    have "prefix_feasible inp xs"
      unfolding prefix_feasible_iff
    proof (intro conjI allI impI)
      show "xs \<noteq> []" by (rule False)
      fix k assume k: "1 \<le> k \<and> k \<le> length xs"
      with all [of k] show "feasible_route inp (take k xs)" by simp
    qed
    from snoc.IH [OF this] obtain d where d: "solver_route inp xs d"
      "route_depart inp START_IDX (of_int (start_time inp)) xs = Some d" by blast
    from d' d(2) False have vis: "visit inp (float_add d (travel_time inp (last xs) j)) j = Some d'"
      by (simp add: route_depart_snoc)
    from visit_SomeD [OF v vis round_float_add] have g: "\<not> float_add d (travel_time inp (last xs) j) > of_int (end_time inp)"
      by simp
    have "solver_route inp (xs @ [j]) d'"
      using d(1) jN _ g visit_serve [OF vis crf]
      by (rule solver_route.extend) (use dj in simp)
    with d' show ?thesis by auto
  qed
qed

lemma prefix_feasible_optimal:
  assumes v: "valid_input inp" and p: "prefix_feasible inp r" and f: "route_finish inp r = Some f"
  shows "\<exists>res. solve inp = Some res \<and>
     (int (length r) < count res \<or> (int (length r) = count res \<and> finish_time res \<le> f))"
proof -
  from prefix_feasible_solver_route [OF v p] obtain d where d: "solver_route inp r d"
    "route_depart inp START_IDX (of_int (start_time inp)) r = Some d" by blast
  from p have "r \<noteq> []" by (simp add: prefix_feasible_iff)
  with f d(2) have "finish_arrival inp d (last r) = Some f" by (simp add: route_finish_def)
  from solve_optimal [OF v d(1) this] show ?thesis .
qed

lemma prefix_feasible_finish:
  "prefix_feasible inp r \<Longrightarrow> \<exists>f. route_finish inp r = Some f"
proof -
  assume p: "prefix_feasible inp r"
  then have "r \<noteq> []" by (simp add: prefix_feasible_iff)
  then have "1 \<le> length r" by (cases r) simp_all
  with p have "feasible_route inp (take (length r) r)" unfolding prefix_feasible_iff by blast
  then show ?thesis by (simp add: feasible_route_def)
qed


subsection \<open>Optimality and monotonicity of \<^verbatim>\<open>solve\<close>\<close>

lemma far_input_solve:
  "solve far_input = Some \<lparr> count = 1, route = [1], route_length = 1, finish_time = 617 \<rparr>"
  by code_simp

lemma detour_input_solve:
  "solve detour_input =
     Some \<lparr> count = 2, route = [0, 1], route_length = 2, finish_time = 635 \<rparr>"
  by code_simp

text \<open>
  Claim C1, as the code has it. On valid input the returned count is maximal among the
  routes every non-empty prefix of which is feasible, that is, the routes on which Finish
  can be reached directly from each visited checkpoint at its departure time: no such
  route visits more checkpoints than the count that \<^verbatim>\<open>solve\<close> returns. The times of a
  route are float sums, as the solver computes them.
\<close>

theorem solve_count_maximal:
  assumes "valid_input inp" "prefix_feasible inp r"
  shows "\<exists>res. solve inp = Some res \<and> int (length r) \<le> count res"
proof -
  from prefix_feasible_finish [OF assms(2)] obtain f where "route_finish inp r = Some f" ..
  from prefix_feasible_optimal [OF assms this] show ?thesis by auto
qed

theorem solve_count_maximal_witness:
  "valid_input detour_input \<and> prefix_feasible detour_input [0, 1] \<and>
   route_finish detour_input [0, 1] = Some 635 \<and>
   solve detour_input =
     Some \<lparr> count = 2, route = [0, 1], route_length = 2, finish_time = 635 \<rparr> \<and>
   (\<exists>res. solve detour_input = Some res \<and> int (length [0, 1 :: nat]) \<le> count res)"
proof -
  have a: "valid_input detour_input" and b: "prefix_feasible detour_input [0, 1]"
    and c: "route_finish detour_input [0, 1] = Some 635"
    by code_simp+
  from solve_count_maximal [OF a b] a b c detour_input_solve show ?thesis by blast
qed

text \<open>
  The claim as the specification states it fails, on an input that is valid: the route
  through checkpoint 0 and then checkpoint 1 is feasible and visits two checkpoints, but
  Finish cannot be reached from checkpoint 0, so the state after checkpoint 0 is never
  recorded, and \<^verbatim>\<open>solve\<close> returns the count 1.
\<close>

theorem solve_count_not_maximal:
  "valid_input far_input \<and>
   solve far_input = Some \<lparr> count = 1, route = [1], route_length = 1, finish_time = 617 \<rparr> \<and>
   feasible_route far_input [0, 1] \<and> route_finish far_input [0, 1] = Some 629 \<and>
   length [0, 1 :: nat] = 2"
proof -
  have "valid_input far_input" "feasible_route far_input [0, 1]"
    "route_finish far_input [0, 1] = Some 629"
    by code_simp+
  with far_input_solve show ?thesis by simp
qed

text \<open>
  Claim C2, as the code has it. On valid input, among the routes every non-empty prefix
  of which is feasible and that visit exactly as many checkpoints as the returned count,
  none finishes before the finish time that \<^verbatim>\<open>solve\<close> returns. The times of a route,
  its finish time too, are float sums, as the solver computes them.
\<close>

theorem solve_finish_minimal:
  assumes "valid_input inp" "prefix_feasible inp r" "route_finish inp r = Some f"
  shows "\<exists>res. solve inp = Some res \<and> (int (length r) = count res \<longrightarrow> finish_time res \<le> f)"
  using prefix_feasible_optimal [OF assms] by auto


theorem solve_finish_minimal_witness:
  "valid_input detour_input \<and> prefix_feasible detour_input [1, 0] \<and>
   route_finish detour_input [1, 0] = Some 644 \<and>
   solve detour_input =
     Some \<lparr> count = 2, route = [0, 1], route_length = 2, finish_time = 635 \<rparr> \<and>
   (\<exists>res. solve detour_input = Some res \<and> int (length [1, 0 :: nat]) = count res \<and>
      finish_time res \<le> 644)"
proof -
  have a: "valid_input detour_input" and b: "prefix_feasible detour_input [1, 0]"
    and c: "route_finish detour_input [1, 0] = Some 644"
    by code_simp+
  from solve_finish_minimal [OF a b c] a b c detour_input_solve show ?thesis by auto
qed

text \<open>
  The claim as the specification states it fails, on an input that is valid: \<^verbatim>\<open>solve\<close>
  returns two checkpoints and the finish time 635, while the route through checkpoint 2
  and then checkpoint 1 is feasible, visits two checkpoints and finishes at 617. Finish
  cannot be reached from checkpoint 2, so the state after checkpoint 2 is never recorded.
\<close>

theorem solve_finish_not_minimal:
  "valid_input detour_input \<and>
   solve detour_input =
     Some \<lparr> count = 2, route = [0, 1], route_length = 2, finish_time = 635 \<rparr> \<and>
   feasible_route detour_input [2, 1] \<and> route_finish detour_input [2, 1] = Some 617 \<and>
   length [2, 1 :: nat] = 2 \<and> (617 :: rat) < 635"
proof -
  have "valid_input detour_input" "feasible_route detour_input [2, 1]"
    "route_finish detour_input [2, 1] = Some 617"
    by code_simp+
  with detour_input_solve show ?thesis by simp
qed

text \<open>
  Claim C9, as the code has it. For two valid inputs, whose slot table lists every half
  hour from a whole hour on and whose times have exact floats, the second with at least
  the openings of the first and with travel times not above those of the first: the count
  returned on the second is not below the count returned on the first, and when the
  counts are equal the finish time returned on the second is not after the one returned
  on the first. Float addition is monotone, so rounding keeps the order of the times.
\<close>

theorem solve_monotone:
  assumes v: "valid_input inp" "valid_input inp'" and r: "relaxes inp inp'"
  shows "\<exists>res res'. solve inp = Some res \<and> solve inp' = Some res' \<and>
     count res \<le> count res' \<and>
     (count res = count res' \<longrightarrow> finish_time res' \<le> finish_time res)"
proof -
  have N: "n_checkpoints inp \<le> MAX_CP" "n_checkpoints inp' \<le> MAX_CP"
    using valid_inputD(2) [OF v(1)] valid_inputD(2) [OF v(2)] by (simp_all add: MAX_CP_def)
  from solve_achieved [OF N(1)] obtain res where res: "solve inp = Some res" "0 \<le> count res"
    "(count res = 0 \<and> finish_time res = 0) \<or>
      (\<exists>r d. solver_route inp r d \<and> int (length r) = count res \<and>
         finish_arrival inp d (last r) = Some (finish_time res))" by blast
  from solve_achieved [OF N(2)] obtain res' where res': "solve inp' = Some res'" "0 \<le> count res'"
    "(count res' = 0 \<and> finish_time res' = 0) \<or>
      (\<exists>r d. solver_route inp' r d \<and> int (length r) = count res' \<and>
         finish_arrival inp' d (last r) = Some (finish_time res'))" by blast
  have "count res \<le> count res' \<and>
     (count res = count res' \<longrightarrow> finish_time res' \<le> finish_time res)"
    using res(3)
  proof (elim disjE exE conjE)
    assume z: "count res = 0" "finish_time res = 0"
    from res'(3) have "count res' = 0 \<longrightarrow> finish_time res' = 0"
    proof (elim disjE exE conjE)
      fix r0 d0 assume "solver_route inp' r0 d0" "int (length r0) = count res'"
      with solver_route_wf [of inp' r0 d0] show ?thesis by auto
    qed simp
    with z res'(2) show ?thesis by simp
  next
    fix r0 d0
    assume a: "solver_route inp r0 d0" "int (length r0) = count res"
      "finish_arrival inp d0 (last r0) = Some (finish_time res)"
    from solver_route_mono [OF v r a(1)] obtain d1 where d1: "solver_route inp' r0 d1" "d1 \<le> d0"
      by blast
    have z: "slot_starts inp' 0 = slot_starts inp 0"
      using relaxesD(3) [OF r, of 0] valid_inputD(3) [OF v(1)] by simp
    have ge: "of_int (slot_starts inp 0) \<le> d1"
      using solver_route_ge [OF v(2) d1(1)] z by simp
    have "last r0 < n_checkpoints inp" using solver_route_wf [OF a(1)] by auto
    from finish_arrival_mono [OF v r this d1(2) ge a(3)]
    obtain f1 where f1: "finish_arrival inp' d1 (last r0) = Some f1" "f1 \<le> finish_time res"
      by blast
    from solve_optimal [OF v(2) d1(1) f1(1)] res'(1) a(2) f1(2) show ?thesis by auto
  qed
  with res(1) res'(1) show ?thesis by blast
qed


theorem solve_monotone_witness:
  "valid_input S3_input \<and> valid_input S3_relaxed_input \<and>
   relaxes S3_input S3_relaxed_input \<and>
   solve S3_input = Some \<lparr> count = 1, route = [0], route_length = 1, finish_time = 642 \<rparr> \<and>
   solve S3_relaxed_input =
     Some \<lparr> count = 1, route = [0], route_length = 1, finish_time = 621 \<rparr> \<and>
   (\<exists>res res'. solve S3_input = Some res \<and> solve S3_relaxed_input = Some res' \<and>
      count res \<le> count res' \<and> finish_time res' \<le> finish_time res)"
proof -
  have a: "valid_input S3_input" and b: "valid_input S3_relaxed_input"
    and c: "relaxes S3_input S3_relaxed_input"
    and d: "solve S3_input = Some \<lparr> count = 1, route = [0], route_length = 1, finish_time = 642 \<rparr>"
      "solve S3_relaxed_input =
         Some \<lparr> count = 1, route = [0], route_length = 1, finish_time = 621 \<rparr>"
    by code_simp+
  from solve_monotone [OF a b c] d have
    "\<exists>res res'. solve S3_input = Some res \<and> solve S3_relaxed_input = Some res' \<and>
      count res \<le> count res' \<and> finish_time res' \<le> finish_time res"
    by auto
  with a b c d show ?thesis by blast
qed

text \<open>
  The claim as the specification states it fails on a slot table that starts on a half
  hour, which strictly increasing multiples of 30 allow. With Finish one minute away the
  arrival at 10:31 is in the slot of 10:30 and the checkpoint counts; with Finish half a
  minute away the arrival at 10:30 and a half has the canonical slot start 10:00, which
  the table does not list, and \<^verbatim>\<open>can_reach_finish\<close> answers no.
\<close>

theorem solve_not_monotone:
  "relaxes late_input late_input_relaxed \<and>
   n_slots late_input = 1 \<and> slot_starts late_input 0 = 630 \<and>
   solve late_input = Some \<lparr> count = 1, route = [0], route_length = 1, finish_time = 631 \<rparr> \<and>
   solve late_input_relaxed =
     Some \<lparr> count = 0, route = [], route_length = 0, finish_time = 0 \<rparr>"
  by code_simp

text \<open>
  The order also fails where the first slot start is not a float, which valid input
  excludes: on a table that starts at minute 67108980 the checkpoint eight minutes from
  Start is reached at the float 67108992 and counts, while the checkpoint at Start is
  left at the float 67108976, before the first slot start, and \<^verbatim>\<open>can_reach_finish\<close>
  answers no.
\<close>

lemma solve_not_monotone_inexact:
  "relaxes inexact_input inexact_input_relaxed"
  "slot_starts inexact_input 0 mod 60 = 0"
  "round_float (of_int (slot_starts inexact_input 0)) = 67108976"
  "solve inexact_input =
     Some \<lparr> count = 1, route = [0], route_length = 1, finish_time = 67108992 \<rparr>"
  "solve inexact_input_relaxed =
     Some \<lparr> count = 0, route = [], route_length = 0, finish_time = 0 \<rparr>"
  by code_simp+

end
